theory Spec2Isabelle
  imports Main "HOL-Library.Word"
begin

section \<open>Data model of \<open>Main::Domain\<close> (main/main_domain.cpp)\<close>

text \<open>
  The multi-account orchestrator owns an insertion-ordered vector of
  \<open>AccountWithIndex\<close> entries and keeps a raw, non-owning pointer to the active
  account. An account object is modelled by the record of what the orchestrator reads from
  it, together with its address \<open>addr\<close>: the value of \<open>account.get()\<close>, which is all
  that pointer comparisons look at. The protocol configuration \<open>MTP::Config\<close> is opaque
  to this file, so it is a type parameter \<open>'c\<close>; its constructor from an environment is a
  parameter of \<open>add\<close>.

  The unread counters are C++ \<open>int\<close> values that the code adds up; they are 32-bit
  words here, read as signed numbers by \<open>sint\<close>, and their addition wraps around as it
  does in the compiled code. The indices of the registry are only compared and counted up
  from zero by one per entry in use; they are unbounded integers.
\<close>

datatype Environment = Production | Test

text \<open>\<open>Data::Session\<close> as far as the badge computation reads it.\<close>

record Session =
  data_unreadBadge :: "32 word"
  data_unreadBadgeMuted :: bool

record 'c Account =
  addr :: nat
  session :: "Session option"
  mtp_environment :: Environment
  mtp_config :: 'c

record 'c AccountWithIndex =
  index :: int
  account :: "'c Account"

definition sessionExists :: "'c Account \<Rightarrow> bool" where
  "sessionExists a = (session a \<noteq> None)"

text \<open>
  Calls into collaborators and events fired on observable streams are recorded, in order,
  in a trace.
\<close>

datatype 'c Effect =
    ActiveChanged "nat option"
  | ActiveLifetimeDestroyed
  | ActiveSessionsForwarded nat
  | UnreadBadgeChangesFired
  | LocalReset
  | UnlockPasscode
  | SetPasscode string
  | WriteAccounts
  | RefreshFallbackProductionConfig 'c
  | StartAdded nat 'c
  | WatchSession nat
  | AccountDestroyed nat

text \<open>The three deferred bodies that the file hands to the main scheduling context.\<close>

datatype Deferred =
    DeferredUpdateUnreadBadge
  | DeferredWriteAccounts
  | DeferredRemoveRedundantAccounts

datatype error =
    ExpectsFailed
  | AssertFailed
  | Unexpected string
  | InvalidPointer

text \<open>
  The members of \<open>Domain\<close> (\<open>_accounts\<close>, \<open>_active\<close>, \<open>_accountToActivate\<close>,
  \<open>_unreadBadge\<close>, \<open>_unreadBadgeMuted\<close> and the two latches), followed by the state of
  the collaborators the file talks to: the application's fallback production config, the
  global passcode flag and the stored passcode, the two queues of deferred calls
  (\<open>Core::App().postponeCall\<close> and \<open>crl::on_main\<close>) and the trace.
\<close>

record 'c Domain =
  accounts :: "'c AccountWithIndex list"
  active :: "nat option"
  accountToActivate :: int
  unreadBadge :: "32 word"
  unreadBadgeMuted :: bool
  unreadBadgeUpdateScheduled :: bool
  writeAccountsScheduled :: bool
  fallbackProductionConfig :: 'c
  localPasscode :: bool
  storedPasscode :: string
  postponedCalls :: "Deferred list"
  onMainCalls :: "Deferred list"
  effects :: "'c Effect list"

definition emit :: "'c Effect \<Rightarrow> 'c Domain \<Rightarrow> 'c Domain" where
  "emit ev d = d\<lparr>effects := effects d @ [ev]\<rparr>"

section \<open>Collaborators\<close>

text \<open>
  Modelled from the spec: assignment to the observable \<open>_active\<close> (\<open>rpl::variable\<close>, not
  part of the source excerpt). The spec says that the "active changed" event fires once per
  effective change, so an assignment of a different value stores it and fires once, and an
  assignment of the same value does nothing.
\<close>

definition assignActive :: "nat option \<Rightarrow> 'c Domain \<Rightarrow> 'c Domain" where
  "assignActive v d =
     (if active d = v then d else emit (ActiveChanged v) (d\<lparr>active := v\<rparr>))"

text \<open>
  Modelled from the spec: \<open>Core::App().refreshFallbackProductionConfig\<close> (the
  fallback-config provider of the external interfaces) stores the config handed to it as the
  process-wide fallback.
\<close>

definition refreshFallbackProductionConfig :: "'c \<Rightarrow> 'c Domain \<Rightarrow> 'c Domain" where
  "refreshFallbackProductionConfig c d =
     emit (RefreshFallbackProductionConfig c) (d\<lparr>fallbackProductionConfig := c\<rparr>)"

text \<open>
  Modelled from the spec: \<open>Storage::Domain::setPasscode\<close> (the storage collaborator)
  replaces the stored passcode; the global flag tells whether it is non-empty.
\<close>

definition setPasscode :: "string \<Rightarrow> 'c Domain \<Rightarrow> 'c Domain" where
  "setPasscode p d =
     emit (SetPasscode p) (d\<lparr>storedPasscode := p, localPasscode := (p \<noteq> [])\<rparr>)"

section \<open>Operations\<close>

definition started :: "'c Domain \<Rightarrow> bool" where
  "started d = (accounts d \<noteq> [])"

text \<open>
  \<open>finish\<close>: \<open>base::take(_accounts)\<close> empties the vector and destroys the accounts it
  owned.
\<close>

definition finish :: "'c Domain \<Rightarrow> 'c Domain" where
  "finish d =
     (let d1 = assignActive None (d\<lparr>accountToActivate := - 1\<rparr>) in
      d1\<lparr>accounts := [],
         effects := effects d1 @ map (\<lambda>e. AccountDestroyed (addr (account e))) (accounts d1)\<rparr>)"

text \<open>The scan of \<open>accountAddedInStorage\<close> for a repeated index.\<close>

fun checkRepeatedIndex :: "int \<Rightarrow> 'c AccountWithIndex list \<Rightarrow> error + unit" where
  "checkRepeatedIndex i [] = Inr ()"
| "checkRepeatedIndex i (e # es) =
     (if index e = i then Inl (Unexpected ''Repeated account index.'')
      else checkRepeatedIndex i es)"

text \<open>
  \<open>accountAddedInStorage\<close>: the owning pointer of the argument may be null, hence the
  option.
\<close>

definition accountAddedInStorage ::
  "int \<Rightarrow> 'c Account option \<Rightarrow> 'c Domain \<Rightarrow> error + 'c Domain" where
  "accountAddedInStorage i ao d =
     (case ao of
        None \<Rightarrow> Inl ExpectsFailed
      | Some a \<Rightarrow>
          (case checkRepeatedIndex i (accounts d) of
             Inl e \<Rightarrow> Inl e
           | Inr _ \<Rightarrow> Inr (d\<lparr>accounts := accounts d @ [\<lparr>index = i, account = a\<rparr>]\<rparr>)))"

definition activateFromStorage :: "int \<Rightarrow> 'c Domain \<Rightarrow> 'c Domain" where
  "activateFromStorage i d = d\<lparr>accountToActivate := i\<rparr>"

definition activeForStorage :: "'c Domain \<Rightarrow> int" where
  "activeForStorage d = accountToActivate d"

text \<open>
  Looking an address up in the registry: \<open>ranges::find\<close> with the projection
  \<open>value.account.get()\<close> in \<open>activate\<close>.
\<close>

fun findAccount :: "nat \<Rightarrow> 'c AccountWithIndex list \<Rightarrow> 'c AccountWithIndex option" where
  "findAccount p [] = None"
| "findAccount p (e # es) = (if addr (account e) = p then Some e else findAccount p es)"

text \<open>
  Dereferencing \<open>_active.current()\<close>. The pointer is null or points to an account owned
  by the registry; a null or dangling pointer has no defined behaviour in the source and is
  an error here.
\<close>

definition activeCurrent :: "'c Domain \<Rightarrow> error + 'c Account" where
  "activeCurrent d =
     (case active d of
        None \<Rightarrow> Inl InvalidPointer
      | Some p \<Rightarrow>
          (case findAccount p (accounts d) of
             None \<Rightarrow> Inl InvalidPointer
           | Some e \<Rightarrow> Inr (account e)))"

definition scheduleWriteAccounts :: "'c Domain \<Rightarrow> 'c Domain" where
  "scheduleWriteAccounts d =
     (if writeAccountsScheduled d then d
      else d\<lparr>writeAccountsScheduled := True,
             onMainCalls := onMainCalls d @ [DeferredWriteAccounts]\<rparr>)"

definition scheduleUpdateUnreadBadge :: "'c Domain \<Rightarrow> 'c Domain" where
  "scheduleUpdateUnreadBadge d =
     (if unreadBadgeUpdateScheduled d then d
      else d\<lparr>unreadBadgeUpdateScheduled := True,
             postponedCalls := postponedCalls d @ [DeferredUpdateUnreadBadge]\<rparr>)"

text \<open>The loop of \<open>updateUnreadBadge\<close> over the registry, on the pair of the two members.\<close>

fun unreadBadgeLoop ::
  "'c AccountWithIndex list \<Rightarrow> 32 word \<times> bool \<Rightarrow> 32 word \<times> bool" where
  "unreadBadgeLoop [] r = r"
| "unreadBadgeLoop (e # es) (n, m) =
     (case session (account e) of
        None \<Rightarrow> unreadBadgeLoop es (n, m)
      | Some s \<Rightarrow>
          unreadBadgeLoop es
            (n + data_unreadBadge s, (if \<not> data_unreadBadgeMuted s then False else m)))"

definition activate :: "nat \<Rightarrow> 'c Domain \<Rightarrow> error + 'c Domain" where
  "activate p d =
     (if active d = Some p then Inr d
      else
        (case findAccount p (accounts d) of
           None \<Rightarrow> Inl AssertFailed
         | Some e \<Rightarrow>
             (let changed = (accountToActivate d \<noteq> index e);
                  d1 = emit ActiveLifetimeDestroyed d;
                  d2 = d1\<lparr>accountToActivate := index e\<rparr>;
                  d3 = assignActive (Some p) d2;
                  d4 = emit (ActiveSessionsForwarded p) d3
              in Inr (if changed then scheduleWriteAccounts d4 else d4))))"

text \<open>The scan of \<open>activateAuthedAccount\<close>: activate the first account with a session.\<close>

fun activateFirstAuthed :: "'c AccountWithIndex list \<Rightarrow> 'c Domain \<Rightarrow> error + 'c Domain" where
  "activateFirstAuthed [] d = Inr d"
| "activateFirstAuthed (e # es) d =
     (if sessionExists (account e) then activate (addr (account e)) d
      else activateFirstAuthed es d)"

definition activateAuthedAccount :: "'c Domain \<Rightarrow> error + 'c Domain" where
  "activateAuthedAccount d =
     (if \<not> started d then Inl ExpectsFailed
      else
        (case activeCurrent d of
           Inl e \<Rightarrow> Inl e
         | Inr a \<Rightarrow>
             (if sessionExists a then Inr d
              else activateFirstAuthed (accounts d) d)))"

definition removePasscodeIfEmpty :: "'c Domain \<Rightarrow> error + bool \<times> 'c Domain" where
  "removePasscodeIfEmpty d =
     (if length (accounts d) \<noteq> 1 then Inr (False, d)
      else
        (case activeCurrent d of
           Inl e \<Rightarrow> Inl e
         | Inr a \<Rightarrow>
             (if sessionExists a then Inr (False, d)
              else
                (let d1 = emit LocalReset d in
                 if \<not> localPasscode d1 then Inr (False, d1)
                 else Inr (True, setPasscode [] (emit UnlockPasscode d1))))))"

text \<open>The scan of \<open>checkForLastProductionConfig\<close> for another production account.\<close>

fun otherProduction :: "nat \<Rightarrow> 'c AccountWithIndex list \<Rightarrow> bool" where
  "otherProduction p [] = False"
| "otherProduction p (e # es) =
     (if addr (account e) \<noteq> p \<and> mtp_environment (account e) = Production then True
      else otherProduction p es)"

definition checkForLastProductionConfig :: "'c Account \<Rightarrow> 'c Domain \<Rightarrow> 'c Domain" where
  "checkForLastProductionConfig a d =
     (if mtp_environment a \<noteq> Production then d
      else if otherProduction (addr a) (accounts d) then d
      else refreshFallbackProductionConfig (mtp_config a) d)"

text \<open>
  \<open>_accounts.erase(i)\<close>: the entry leaves the vector and the account it owns is
  destroyed.
\<close>

definition eraseAt :: "nat \<Rightarrow> 'c Domain \<Rightarrow> 'c Domain" where
  "eraseAt i d =
     emit (AccountDestroyed (addr (account (accounts d ! i))))
       (d\<lparr>accounts := take i (accounts d) @ drop (Suc i) (accounts d)\<rparr>)"

text \<open>
  The loop of \<open>removeRedundantAccounts\<close>; \<open>i\<close> is the position of the iterator in the
  vector, which shrinks under it.
\<close>

function removeRedundantLoop :: "nat \<Rightarrow> 'c Domain \<Rightarrow> 'c Domain" where
  "removeRedundantLoop i d =
     (if i < length (accounts d) then
        (if Some (addr (account (accounts d ! i))) = active d
            \<or> sessionExists (account (accounts d ! i))
         then removeRedundantLoop (Suc i) d
         else removeRedundantLoop i
                (eraseAt i (checkForLastProductionConfig (account (accounts d ! i)) d)))
      else d)"
  by pat_completeness auto
termination
  by (relation "measure (\<lambda>(i, d). 2 * length (accounts d) - i)")
     (auto simp: eraseAt_def emit_def checkForLastProductionConfig_def
        refreshFallbackProductionConfig_def)

declare removeRedundantLoop.simps [simp del]

definition removeRedundantAccounts :: "'c Domain \<Rightarrow> error + 'c Domain" where
  "removeRedundantAccounts d =
     (if \<not> started d then Inl ExpectsFailed
      else
        (let was = length (accounts d) in
         case activateAuthedAccount d of
           Inl e \<Rightarrow> Inl e
         | Inr d1 \<Rightarrow>
             (let d2 = removeRedundantLoop 0 d1 in
              case removePasscodeIfEmpty d2 of
                Inl e \<Rightarrow> Inl e
              | Inr (removed, d3) \<Rightarrow>
                  Inr (if \<not> removed \<and> length (accounts d3) \<noteq> was
                       then scheduleWriteAccounts d3 else d3))))"

subsection \<open>Adding an account\<close>

text \<open>The scan of \<open>add\<close> for the first account of the environment.\<close>

fun firstConfigFor :: "Environment \<Rightarrow> 'c AccountWithIndex list \<Rightarrow> 'c option" where
  "firstConfigFor env [] = None"
| "firstConfigFor env (e # es) =
     (if mtp_environment (account e) = env then Some (mtp_config (account e))
      else firstConfigFor env es)"

text \<open>
  The local \<open>config\<close> of \<open>add\<close>. The constructor \<open>MTP::Config(environment)\<close> is the
  parameter \<open>mk\<close>; cloning a config is copying the value.
\<close>

definition add_config :: "(Environment \<Rightarrow> 'c) \<Rightarrow> Environment \<Rightarrow> 'c Domain \<Rightarrow> error + 'c" where
  "add_config mk environment d =
     (case activeCurrent d of
        Inl e \<Rightarrow> Inl e
      | Inr a \<Rightarrow>
          (if mtp_environment a = environment then Inr (mtp_config a)
           else
             (case firstConfigFor environment (accounts d) of
                Some c \<Rightarrow> Inr c
              | None \<Rightarrow>
                  Inr (if environment = Production then fallbackProductionConfig d
                       else mk environment))))"

text \<open>The local \<open>index\<close> of \<open>add\<close>: count up from the start value while it is in use.\<close>

function add_index :: "'c AccountWithIndex list \<Rightarrow> int \<Rightarrow> int" where
  "add_index es i = (if i \<in> index ` set es then add_index es (i + 1) else i)"
  by pat_completeness auto
termination
proof (relation "measure (\<lambda>(es, i). card {k \<in> index ` set es. i \<le> k})")
  show "wf (measure (\<lambda>(es :: 'c AccountWithIndex list, i). card {k \<in> index ` set es. i \<le> k}))"
    by simp
next
  fix es :: "'c AccountWithIndex list" and i :: int
  assume mem: "i \<in> index ` set es"
  have "i \<in> {k \<in> index ` set es. i \<le> k}" and "i \<notin> {k \<in> index ` set es. i + 1 \<le> k}"
    using mem by simp_all
  moreover have "{k \<in> index ` set es. i + 1 \<le> k} \<subseteq> {k \<in> index ` set es. i \<le> k}"
    by auto
  ultimately have "{k \<in> index ` set es. i + 1 \<le> k} \<subset> {k \<in> index ` set es. i \<le> k}"
    by blast
  then have "card {k \<in> index ` set es. i + 1 \<le> k} < card {k \<in> index ` set es. i \<le> k}"
    by (intro psubset_card_mono) auto
  then show "((es, i + 1), (es, i)) \<in> measure (\<lambda>(es, i). card {k \<in> index ` set es. i \<le> k})"
    by simp
qed

declare add_index.simps [simp del]

text \<open>Installing the two subscriptions of \<open>watchSession\<close> on an account.\<close>

definition watchSession :: "nat \<Rightarrow> 'c Domain \<Rightarrow> 'c Domain" where
  "watchSession p d = emit (WatchSession p) d"

text \<open>
  Modelled from the spec: the account object that \<open>std::make_unique<Account>\<close>
  constructs at the address \<open>p\<close> and that \<open>_local->startAdded\<close> starts (the class
  \<open>Account\<close> and the storage are not part of the excerpt). It has no session yet, and its
  protocol instance runs on the config handed to \<open>startAdded\<close>, in the environment
  asked for.
\<close>

definition newAccount :: "nat \<Rightarrow> Environment \<Rightarrow> 'c \<Rightarrow> 'c Account" where
  "newAccount p environment config =
     \<lparr>addr = p, session = None, mtp_environment = environment, mtp_config = config\<rparr>"

text \<open>\<open>add\<close>: \<open>p\<close> is the address that \<open>std::make_unique<Account>\<close> returns.\<close>

definition add ::
  "(Environment \<Rightarrow> 'c) \<Rightarrow> nat \<Rightarrow> Environment \<Rightarrow> 'c Domain \<Rightarrow> error + nat \<times> 'c Domain" where
  "add mk p environment d =
     (if \<not> started d then Inl ExpectsFailed
      else
        (case add_config mk environment d of
           Inl e \<Rightarrow> Inl e
         | Inr config \<Rightarrow>
             (let i = add_index (accounts d) 0;
                  d1 = d\<lparr>accounts := accounts d
                         @ [\<lparr>index = i, account = newAccount p environment config\<rparr>]\<rparr>;
                  d2 = emit (StartAdded p config) d1
              in Inr (p, watchSession p d2))))"

subsection \<open>Session events\<close>

text \<open>
  The body of the second subscription of \<open>watchSession\<close>: the session of the account at
  \<open>p\<close> has become absent.
\<close>

definition sessionLost :: "nat \<Rightarrow> 'c Domain \<Rightarrow> error + 'c Domain" where
  "sessionLost p d =
     (let d1 = scheduleUpdateUnreadBadge d in
      case (if Some p = active d1 then activateAuthedAccount d1 else Inr d1) of
        Inl e \<Rightarrow> Inl e
      | Inr d2 \<Rightarrow>
          Inr (d2\<lparr>onMainCalls := onMainCalls d2 @ [DeferredRemoveRedundantAccounts]\<rparr>))"

text \<open>
  Modelled from the spec: the account collaborator owns its session slot. These three
  events change the slot of the account at \<open>p\<close> and deliver the change to the
  subscriptions that \<open>watchSession\<close> installed: a session that appears, a session that
  disappears, and a change of the unread state of a live session.
\<close>

definition setSession :: "nat \<Rightarrow> Session option \<Rightarrow> 'c Domain \<Rightarrow> 'c Domain" where
  "setSession p s d =
     d\<lparr>accounts :=
         map (\<lambda>e. if addr (account e) = p then e\<lparr>account := (account e)\<lparr>session := s\<rparr>\<rparr> else e)
           (accounts d)\<rparr>"

definition sessionCreated :: "nat \<Rightarrow> Session \<Rightarrow> 'c Domain \<Rightarrow> 'c Domain" where
  "sessionCreated p s d = setSession p (Some s) d"

definition sessionDestroyed :: "nat \<Rightarrow> 'c Domain \<Rightarrow> error + 'c Domain" where
  "sessionDestroyed p d = sessionLost p (setSession p None d)"

definition unreadBadgeChanged :: "nat \<Rightarrow> Session \<Rightarrow> 'c Domain \<Rightarrow> 'c Domain" where
  "unreadBadgeChanged p s d =
     (case findAccount p (accounts d) of
        None \<Rightarrow> d
      | Some e \<Rightarrow>
          (if sessionExists (account e) then scheduleUpdateUnreadBadge (setSession p (Some s) d)
           else d))"

subsection \<open>Badge recompute\<close>

text \<open>A sequence of unread changes of sessions, delivered one after the other.\<close>

fun unreadBadgeBurst :: "(nat \<times> Session) list \<Rightarrow> 'c Domain \<Rightarrow> 'c Domain" where
  "unreadBadgeBurst [] d = d"
| "unreadBadgeBurst ((p, s) # ts) d = unreadBadgeBurst ts (unreadBadgeChanged p s d)"

text \<open>
  Modelled from the spec: \<open>_unreadBadgeChanges.fire({})\<close>. An observable stream delivers
  a value synchronously to its subscribers, on the same context, before \<open>fire\<close> returns.
  The subscribers of this stream are not part of the excerpt; \<open>during\<close> is the sequence of
  unread changes that arrive while they are served, each of which reaches
  \<open>scheduleUpdateUnreadBadge\<close> through the subscription of \<open>watchSession\<close>. It is
  empty when nothing arrives.
\<close>

definition fireUnreadBadgeChanges :: "(nat \<times> Session) list \<Rightarrow> 'c Domain \<Rightarrow> 'c Domain" where
  "fireUnreadBadgeChanges during d = unreadBadgeBurst during (emit UnreadBadgeChangesFired d)"

definition updateUnreadBadge :: "(nat \<times> Session) list \<Rightarrow> 'c Domain \<Rightarrow> 'c Domain" where
  "updateUnreadBadge during d =
     (case unreadBadgeLoop (accounts d) (0, True) of
        (n, m) \<Rightarrow>
          fireUnreadBadgeChanges during (d\<lparr>unreadBadge := n, unreadBadgeMuted := m\<rparr>))"

subsection \<open>Start-up\<close>

fun activateAfterStartingLoop ::
  "'c AccountWithIndex list \<Rightarrow> nat \<Rightarrow> 'c Domain \<Rightarrow> nat \<times> 'c Domain" where
  "activateAfterStartingLoop [] toActivate d = (toActivate, d)"
| "activateAfterStartingLoop (e # es) toActivate d =
     activateAfterStartingLoop es
       (if index e = accountToActivate d then addr (account e) else toActivate)
       (watchSession (addr (account e)) d)"

definition activateAfterStarting :: "'c Domain \<Rightarrow> error + 'c Domain" where
  "activateAfterStarting d =
     (case accounts d of
        [] \<Rightarrow> Inl ExpectsFailed
      | front # _ \<Rightarrow>
          (case activateAfterStartingLoop (accounts d) (addr (account front)) d of
             (toActivate, d1) \<Rightarrow>
               (case activate toActivate d1 of
                  Inl e \<Rightarrow> Inl e
                | Inr d2 \<Rightarrow>
                    (case removePasscodeIfEmpty d2 of
                       Inl e \<Rightarrow> Inl e
                     | Inr (_, d3) \<Rightarrow> Inr d3))))"

subsection \<open>Deferred calls\<close>

text \<open>
  The bodies of the three lambdas handed to the scheduler; \<open>during\<close> is what arrives
  while the badge event is delivered.
\<close>

definition runDeferred ::
  "(nat \<times> Session) list \<Rightarrow> Deferred \<Rightarrow> 'c Domain \<Rightarrow> error + 'c Domain" where
  "runDeferred during c d =
     (case c of
        DeferredUpdateUnreadBadge \<Rightarrow>
          Inr (updateUnreadBadge during (d\<lparr>unreadBadgeUpdateScheduled := False\<rparr>))
      | DeferredWriteAccounts \<Rightarrow>
          Inr (emit WriteAccounts (d\<lparr>writeAccountsScheduled := False\<rparr>))
      | DeferredRemoveRedundantAccounts \<Rightarrow> removeRedundantAccounts d)"

text \<open>
  Modelled from the spec: the main scheduler (\<open>Core::App().postponeCall\<close>,
  \<open>crl::on_main\<close>) runs every callback handed to it exactly once, later, on the one
  logical thread, in the order of posting. A turn takes the oldest pending call off its
  queue and runs it.
\<close>

definition runPostponed :: "(nat \<times> Session) list \<Rightarrow> 'c Domain \<Rightarrow> error + 'c Domain" where
  "runPostponed during d =
     (case postponedCalls d of
        [] \<Rightarrow> Inr d
      | c # cs \<Rightarrow> runDeferred during c (d\<lparr>postponedCalls := cs\<rparr>))"

definition runOnMain :: "(nat \<times> Session) list \<Rightarrow> 'c Domain \<Rightarrow> error + 'c Domain" where
  "runOnMain during d =
     (case onMainCalls d of
        [] \<Rightarrow> Inr d
      | c # cs \<Rightarrow> runDeferred during c (d\<lparr>onMainCalls := cs\<rparr>))"

section \<open>Runs of the orchestrator\<close>

text \<open>
  The calls that reach the orchestrator from outside: the storage collaborator announcing a
  loaded account and the preferred index, the public operations, the session events of the
  accounts, and the turns of the scheduler. \<open>run\<close> performs a sequence of them and stops at
  the first fatal error.
\<close>

datatype 'c Op =
    OpAccountAddedInStorage int "'c Account option"
  | OpActivateFromStorage int
  | OpActivateAfterStarting
  | OpAdd nat Environment
  | OpActivate nat
  | OpRemoveRedundantAccounts
  | OpFinish
  | OpSessionCreated nat Session
  | OpSessionDestroyed nat
  | OpUnreadBadgeChanged nat Session
  | OpRunPostponed "(nat \<times> Session) list"
  | OpRunOnMain "(nat \<times> Session) list"

fun applyOp :: "(Environment \<Rightarrow> 'c) \<Rightarrow> 'c Op \<Rightarrow> 'c Domain \<Rightarrow> error + 'c Domain" where
  "applyOp mk (OpAccountAddedInStorage i ao) d = accountAddedInStorage i ao d"
| "applyOp mk (OpActivateFromStorage i) d = Inr (activateFromStorage i d)"
| "applyOp mk OpActivateAfterStarting d = activateAfterStarting d"
| "applyOp mk (OpAdd p environment) d = map_sum id snd (add mk p environment d)"
| "applyOp mk (OpActivate p) d = activate p d"
| "applyOp mk OpRemoveRedundantAccounts d = removeRedundantAccounts d"
| "applyOp mk OpFinish d = Inr (finish d)"
| "applyOp mk (OpSessionCreated p s) d = Inr (sessionCreated p s d)"
| "applyOp mk (OpSessionDestroyed p) d = sessionDestroyed p d"
| "applyOp mk (OpUnreadBadgeChanged p s) d = Inr (unreadBadgeChanged p s d)"
| "applyOp mk (OpRunPostponed during) d = runPostponed during d"
| "applyOp mk (OpRunOnMain during) d = runOnMain during d"

fun run :: "(Environment \<Rightarrow> 'c) \<Rightarrow> 'c Op list \<Rightarrow> 'c Domain \<Rightarrow> error + 'c Domain" where
  "run mk [] d = Inr d"
| "run mk (op # ops) d =
     (case applyOp mk op d of
        Inl e \<Rightarrow> Inl e
      | Inr d' \<Rightarrow> run mk ops d')"

text \<open>A freshly constructed orchestrator: no account, no active account, nothing pending.\<close>

definition initial :: "'c \<Rightarrow> 'c Domain" where
  "initial fallback =
     \<lparr>accounts = [], active = None, accountToActivate = - 1,
      unreadBadge = 0, unreadBadgeMuted = True,
      unreadBadgeUpdateScheduled = False, writeAccountsScheduled = False,
      fallbackProductionConfig = fallback, localPasscode = False, storedPasscode = [],
      postponedCalls = [], onMainCalls = [], effects = []\<rparr>"

section \<open>Vocabulary of the properties\<close>

text \<open>
  A redundant account, in the words of the glossary: a non-active account with no live
  session. \<open>act\<close> is the value of the active pointer.
\<close>

definition redundant :: "nat option \<Rightarrow> 'c AccountWithIndex \<Rightarrow> bool" where
  "redundant act e = (Some (addr (account e)) \<noteq> act \<and> \<not> sessionExists (account e))"

text \<open>
  The active invariant of the data model: if the registry is non-empty, the active pointer
  designates a member of the registry.
\<close>

definition activeValid :: "'c Domain \<Rightarrow> bool" where
  "activeValid d =
     (accounts d = [] \<or> active d \<in> set (map (\<lambda>e. Some (addr (account e))) (accounts d)))"

text \<open>The sessions of the accounts that have one, in registry order.\<close>

definition liveSessions :: "'c Domain \<Rightarrow> Session list" where
  "liveSessions d = List.map_filter (\<lambda>e. session (account e)) (accounts d)"

text \<open>The values that the "active changed" stream has delivered, read off a trace.\<close>

fun activeChangedEvents :: "'c Effect list \<Rightarrow> nat option list" where
  "activeChangedEvents [] = []"
| "activeChangedEvents (ActiveChanged v # evs) = v # activeChangedEvents evs"
| "activeChangedEvents (_ # evs) = activeChangedEvents evs"

text \<open>The indices of the entries of the registry are pairwise distinct.\<close>

definition uniqueIndices :: "'c Domain \<Rightarrow> bool" where
  "uniqueIndices d = distinct (map index (accounts d))"

text \<open>
  The account at the address \<open>p\<close> is in the registry and has a live session, so that an
  unread change of its session is delivered.
\<close>

definition sessionLive :: "nat \<Rightarrow> 'c Domain \<Rightarrow> bool" where
  "sessionLive p d =
     (case findAccount p (accounts d) of
        None \<Rightarrow> False
      | Some e \<Rightarrow> sessionExists (account e))"

text \<open>The account of the entry uses the production environment.\<close>

definition isProduction :: "'c AccountWithIndex \<Rightarrow> bool" where
  "isProduction e = (mtp_environment (account e) = Production)"

text \<open>
  What the fallback production config is after the loop of \<open>removeRedundantAccounts\<close> has
  run from position \<open>i\<close>: if the loop removes production accounts and no production
  account stays, the config of the last production account it removes; otherwise what it was.
\<close>

definition fallbackAfterCleanup :: "nat \<Rightarrow> 'c Domain \<Rightarrow> 'c" where
  "fallbackAfterCleanup i d =
     (let gone = filter (\<lambda>e. redundant (active d) e \<and> isProduction e) (drop i (accounts d));
          stay = take i (accounts d)
                   @ filter (\<lambda>e. \<not> redundant (active d) e) (drop i (accounts d))
      in if gone = [] \<or> (\<exists>e\<in>set stay. isProduction e) then fallbackProductionConfig d
         else mtp_config (account (last gone)))"

text \<open>
  The cleanup loop of \<open>removeRedundantAccounts\<close>, run from position \<open>i\<close>: the entries
  that stay in the registry, the entries that go, both in registry order, and the effects of
  removing a list of entries one after the other, where \<open>stays\<close> tells whether a production
  account stays.
\<close>

definition stayInCleanup :: "nat \<Rightarrow> 'c Domain \<Rightarrow> 'c AccountWithIndex list" where
  "stayInCleanup i d =
     take i (accounts d) @ filter (\<lambda>e. \<not> redundant (active d) e) (drop i (accounts d))"

definition goneInCleanup :: "nat \<Rightarrow> 'c Domain \<Rightarrow> 'c AccountWithIndex list" where
  "goneInCleanup i d = filter (redundant (active d)) (drop i (accounts d))"

fun cleanupTrace :: "bool \<Rightarrow> 'c AccountWithIndex list \<Rightarrow> 'c Effect list" where
  "cleanupTrace stays [] = []"
| "cleanupTrace stays (e # es) =
     (if isProduction e \<and> \<not> stays \<and> \<not> list_ex isProduction es
      then [RefreshFallbackProductionConfig (mtp_config (account e))] else [])
     @ AccountDestroyed (addr (account e)) # cleanupTrace stays es"

section \<open>Example states\<close>

text \<open>
  Three accounts with configs numbered by naturals: \<open>exA\<close> and \<open>exB\<close> are logged out
  production accounts, \<open>exC\<close> is a test account with a live session of five unread
  messages, not muted.
\<close>

definition exA :: "nat AccountWithIndex" where
  "exA = \<lparr>index = 0, account = \<lparr>addr = 10, session = None,
            mtp_environment = Production, mtp_config = 100\<rparr>\<rparr>"

definition exB :: "nat AccountWithIndex" where
  "exB = \<lparr>index = 1, account = \<lparr>addr = 11, session = None,
            mtp_environment = Production, mtp_config = 101\<rparr>\<rparr>"

definition exC :: "nat AccountWithIndex" where
  "exC = \<lparr>index = 2, account = \<lparr>addr = 12,
            session = Some \<lparr>data_unreadBadge = 5, data_unreadBadgeMuted = False\<rparr>,
            mtp_environment = Test, mtp_config = 102\<rparr>\<rparr>"

text \<open>The registry \<open>[exA, exB, exC]\<close> with \<open>exA\<close> active and nothing pending.\<close>

definition exDomain :: "nat Domain" where
  "exDomain =
     \<lparr>accounts = [exA, exB, exC], active = Some 10, accountToActivate = 0,
      unreadBadge = 0, unreadBadgeMuted = True,
      unreadBadgeUpdateScheduled = False, writeAccountsScheduled = False,
      fallbackProductionConfig = 7, localPasscode = False, storedPasscode = [],
      postponedCalls = [], onMainCalls = [], effects = []\<rparr>"

text \<open>The state that \<open>removeRedundantAccounts\<close> leaves when run on \<open>exDomain\<close>.\<close>

definition exCleaned :: "nat Domain" where
  "exCleaned =
     \<lparr>accounts = [exC], active = Some 12, accountToActivate = 2,
      unreadBadge = 0, unreadBadgeMuted = True,
      unreadBadgeUpdateScheduled = False, writeAccountsScheduled = True,
      fallbackProductionConfig = 101, localPasscode = False, storedPasscode = [],
      postponedCalls = [], onMainCalls = [DeferredWriteAccounts],
      effects = [ActiveLifetimeDestroyed, ActiveChanged (Some 12),
        ActiveSessionsForwarded 12, AccountDestroyed 10,
        RefreshFallbackProductionConfig 101, AccountDestroyed 11]\<rparr>"

text \<open>
  A run: two accounts come from storage, the second is preferred and becomes active, a
  third account is added, and the session of the active account ends.
\<close>

definition exOps :: "nat Op list" where
  "exOps =
     [OpAccountAddedInStorage 0 (Some (account exA)),
      OpAccountAddedInStorage 2 (Some (account exC)),
      OpActivateFromStorage 2,
      OpActivateAfterStarting,
      OpAdd 11 Production,
      OpSessionDestroyed 12]"


text \<open>
  Two accounts with live sessions whose unread counts add up to more than a C++ \<open>int\<close>
  holds.
\<close>

definition exFull :: "nat AccountWithIndex" where
  "exFull = \<lparr>index = 3, account = \<lparr>addr = 20,
            session = Some \<lparr>data_unreadBadge = 2147483647, data_unreadBadgeMuted = True\<rparr>,
            mtp_environment = Test, mtp_config = 103\<rparr>\<rparr>"

definition exOne :: "nat AccountWithIndex" where
  "exOne = \<lparr>index = 4, account = \<lparr>addr = 21,
            session = Some \<lparr>data_unreadBadge = 1, data_unreadBadgeMuted = True\<rparr>,
            mtp_environment = Test, mtp_config = 104\<rparr>\<rparr>"

section \<open>Auxiliary lemmas\<close>

lemma emit_fields [simp]:
  "accounts (emit ev d) = accounts d"
  "active (emit ev d) = active d"
  "accountToActivate (emit ev d) = accountToActivate d"
  "fallbackProductionConfig (emit ev d) = fallbackProductionConfig d"
  "effects (emit ev d) = effects d @ [ev]"
  by (simp_all add: emit_def)

lemma checkForLastProductionConfig_fields [simp]:
  "accounts (checkForLastProductionConfig a d) = accounts d"
  "active (checkForLastProductionConfig a d) = active d"
  by (simp_all add: checkForLastProductionConfig_def refreshFallbackProductionConfig_def)

lemma eraseAt_fields [simp]:
  "accounts (eraseAt i d) = take i (accounts d) @ drop (Suc i) (accounts d)"
  "active (eraseAt i d) = active d"
  "fallbackProductionConfig (eraseAt i d) = fallbackProductionConfig d"
  by (simp_all add: eraseAt_def)

lemma removeRedundantLoop_active [simp]: "active (removeRedundantLoop i d) = active d"
proof (induction i d rule: removeRedundantLoop.induct)
  case (1 i d)
  show ?case
    by (subst removeRedundantLoop.simps) (simp add: 1)
qed

lemma removeRedundantLoop_accounts:
  "accounts (removeRedundantLoop i d) =
     take i (accounts d) @ filter (\<lambda>e. \<not> redundant (active d) e) (drop i (accounts d))"
proof (induction i d rule: removeRedundantLoop.induct)
  case (1 i d)
  show ?case
  proof (cases "i < length (accounts d)")
    case False
    then show ?thesis
      by (subst removeRedundantLoop.simps) simp
  next
    case inside: True
    then have split: "drop i (accounts d) = accounts d ! i # drop (Suc i) (accounts d)"
      by (simp add: Cons_nth_drop_Suc)
    show ?thesis
    proof (cases "redundant (active d) (accounts d ! i)")
      case False
      then have keep: "Some (addr (account (accounts d ! i))) = active d
          \<or> sessionExists (account (accounts d ! i))"
        by (auto simp: redundant_def)
      have "accounts (removeRedundantLoop i d) = accounts (removeRedundantLoop (Suc i) d)"
        using inside keep by (subst removeRedundantLoop.simps) simp
      also have "\<dots> = take (Suc i) (accounts d)
          @ filter (\<lambda>e. \<not> redundant (active d) e) (drop (Suc i) (accounts d))"
        using "1.IH"(1) [OF inside keep] .
      finally show ?thesis
        using inside False by (simp add: split take_Suc_conv_app_nth)
    next
      case True
      then have drop: "\<not> (Some (addr (account (accounts d ! i))) = active d
          \<or> sessionExists (account (accounts d ! i)))"
        by (auto simp: redundant_def)
      let ?d' = "eraseAt i (checkForLastProductionConfig (account (accounts d ! i)) d)"
      have "accounts (removeRedundantLoop i d) = accounts (removeRedundantLoop i ?d')"
        using inside drop by (subst removeRedundantLoop.simps) simp
      also have "\<dots> = take i (accounts ?d')
          @ filter (\<lambda>e. \<not> redundant (active ?d') e) (drop i (accounts ?d'))"
        using "1.IH"(2) [OF inside drop] .
      finally show ?thesis
        using inside True by (simp add: split min_def)
    qed
  qed
qed

lemma findAccount_find: "findAccount p es = find (\<lambda>e. addr (account e) = p) es"
  by (induction es) simp_all

lemma findAccount_SomeD:
  "findAccount p es = Some e \<Longrightarrow> e \<in> set es \<and> addr (account e) = p"
  by (induction es) (auto split: if_splits)

lemma findAccount_member:
  "e \<in> set es \<Longrightarrow> \<exists>e'. findAccount (addr (account e)) es = Some e'"
  by (induction es) auto

lemma findAccount_distinct:
  "distinct (map (\<lambda>e. addr (account e)) es) \<Longrightarrow> e \<in> set es \<Longrightarrow>
     findAccount (addr (account e)) es = Some e"
  by (induction es) (auto simp: image_iff)

lemma scheduleWriteAccounts_fields [simp]:
  "accounts (scheduleWriteAccounts d) = accounts d"
  "active (scheduleWriteAccounts d) = active d"
  "accountToActivate (scheduleWriteAccounts d) = accountToActivate d"
  "effects (scheduleWriteAccounts d) = effects d"
  "fallbackProductionConfig (scheduleWriteAccounts d) = fallbackProductionConfig d"
  by (simp_all add: scheduleWriteAccounts_def)

lemma activate_unfold:
  "activate p d =
     (if active d = Some p then Inr d
      else case findAccount p (accounts d) of
        None \<Rightarrow> Inl AssertFailed
      | Some e \<Rightarrow>
          Inr ((if accountToActivate d \<noteq> index e then scheduleWriteAccounts else id)
                (d\<lparr>accountToActivate := index e, active := Some p,
                   effects := effects d @
                     [ActiveLifetimeDestroyed, ActiveChanged (Some p),
                      ActiveSessionsForwarded p]\<rparr>)))"
  by (simp add: activate_def Let_def emit_def assignActive_def split: option.splits)

lemma activate_accounts: "activate p d = Inr d' \<Longrightarrow> accounts d' = accounts d"
  by (auto simp: activate_unfold split: if_splits option.splits)

lemma activate_active:
  "activate p d = Inr d' \<Longrightarrow> active d' = Some p"
  by (auto simp: activate_unfold split: if_splits option.splits)

lemma activate_member:
  "e \<in> set (accounts d) \<Longrightarrow> \<exists>d'. activate (addr (account e)) d = Inr d'"
  using findAccount_member [of e "accounts d"] by (auto simp: activate_unfold)

lemma activateFirstAuthed_find:
  "activateFirstAuthed es d =
     (case find (\<lambda>e. sessionExists (account e)) es of
        None \<Rightarrow> Inr d
      | Some e \<Rightarrow> activate (addr (account e)) d)"
  by (induction es) simp_all

lemma activateAuthedAccount_cases:
  assumes "started d" and "activeCurrent d = Inr a"
  shows "\<exists>d'. activateAuthedAccount d = Inr d' \<and>
           (if sessionExists a then d' = d
            else case find (\<lambda>e. sessionExists (account e)) (accounts d) of
              None \<Rightarrow> d' = d
            | Some e \<Rightarrow> activate (addr (account e)) d = Inr d' \<and>
                        active d' = Some (addr (account e)))"
proof (cases "sessionExists a")
  case True
  then show ?thesis
    using assms by (simp add: activateAuthedAccount_def)
next
  case noSession: False
  show ?thesis
  proof (cases "find (\<lambda>e. sessionExists (account e)) (accounts d)")
    case None
    then show ?thesis
      using assms noSession
      by (simp add: activateAuthedAccount_def activateFirstAuthed_find)
  next
    case (Some e)
    then have "e \<in> set (accounts d)"
      by (auto simp: find_Some_iff)
    then obtain d' where act: "activate (addr (account e)) d = Inr d'"
      using activate_member by blast
    then have "active d' = Some (addr (account e))"
      by (rule activate_active)
    with act Some show ?thesis
      using assms noSession
      by (simp add: activateAuthedAccount_def activateFirstAuthed_find)
  qed
qed

lemma activeCurrent_member:
  assumes "distinct (map (\<lambda>e. addr (account e)) (accounts d))"
    and "e \<in> set (accounts d)" and "active d = Some (addr (account e))"
  shows "activeCurrent d = Inr (account e)"
  using assms by (simp add: activeCurrent_def findAccount_distinct)

lemma removePasscodeIfEmpty_frame:
  assumes "removePasscodeIfEmpty d = Inr (r, d')"
  shows "accounts d' = accounts d" and "active d' = active d"
    and "fallbackProductionConfig d' = fallbackProductionConfig d"
  using assms
  by (auto simp: removePasscodeIfEmpty_def Let_def setPasscode_def emit_def
      split: if_splits sum.splits)

lemma removeRedundantAccounts_unfold:
  assumes "started d" and "activateAuthedAccount d = Inr d1"
  shows "removeRedundantAccounts d =
     (case removePasscodeIfEmpty (removeRedundantLoop 0 d1) of
        Inl e \<Rightarrow> Inl e
      | Inr (removed, d3) \<Rightarrow>
          Inr (if \<not> removed \<and> length (accounts d3) \<noteq> length (accounts d)
               then scheduleWriteAccounts d3 else d3))"
  using assms by (simp add: removeRedundantAccounts_def Let_def)

lemma removeRedundantAccounts_registry:
  assumes "removeRedundantAccounts d = Inr d'"
  shows "\<exists>d1. activateAuthedAccount d = Inr d1 \<and> active d' = active d1 \<and>
           accounts d' = filter (\<lambda>e. \<not> redundant (active d1) e) (accounts d1)"
proof -
  from assms have st: "started d"
    by (auto simp: removeRedundantAccounts_def split: if_splits)
  from assms st obtain d1 where d1: "activateAuthedAccount d = Inr d1"
    by (auto simp: removeRedundantAccounts_def Let_def split: sum.splits)
  from assms obtain r d3 where
    d3: "removePasscodeIfEmpty (removeRedundantLoop 0 d1) = Inr (r, d3)"
    and d': "d' = (if \<not> r \<and> length (accounts d3) \<noteq> length (accounts d)
               then scheduleWriteAccounts d3 else d3)"
    by (auto simp: removeRedundantAccounts_unfold [OF st d1] split: sum.splits prod.splits)
  have "accounts d' = accounts (removeRedundantLoop 0 d1)"
    and "active d' = active (removeRedundantLoop 0 d1)"
    using removePasscodeIfEmpty_frame(1,2) [OF d3] d' by simp_all
  then show ?thesis
    using d1 by (simp add: removeRedundantLoop_accounts)
qed

lemma find_unique:
  "x \<in> set xs \<Longrightarrow> P x \<Longrightarrow> \<forall>y\<in>set xs. P y \<longrightarrow> y = x \<Longrightarrow> find P xs = Some x"
proof (induction xs)
  case Nil
  then show ?case by simp
next
  case (Cons z zs)
  show ?case
  proof (cases "P z")
    case True
    then have "z = x" using Cons.prems(3) by simp
    with True show ?thesis by simp
  next
    case False
    then have "z \<noteq> x" using Cons.prems(2) by blast
    then have mem: "x \<in> set zs" using Cons.prems(1) by simp
    have uz: "\<forall>y\<in>set zs. P y \<longrightarrow> y = x" using Cons.prems(3) by simp
    have "find P zs = Some x"
      by (rule Cons.IH [OF mem Cons.prems(2) uz])
    with False show ?thesis by simp
  qed
qed

lemma filter_unique:
  "distinct xs \<Longrightarrow> x \<in> set xs \<Longrightarrow> P x \<Longrightarrow> \<forall>y\<in>set xs. P y \<longrightarrow> y = x \<Longrightarrow>
     filter P xs = [x]"
proof (induction xs)
  case Nil
  then show ?case by simp
next
  case (Cons z zs)
  have dz: "distinct zs" and zfresh: "z \<notin> set zs"
    using Cons.prems(1) by simp_all
  have uz: "\<forall>y\<in>set zs. P y \<longrightarrow> y = x"
    using Cons.prems(4) by simp
  show ?case
  proof (cases "P z")
    case True
    then have zx: "z = x" using Cons.prems(4) by simp
    have "\<forall>y\<in>set zs. \<not> P y"
      using uz zfresh zx by blast
    then have "filter P zs = []"
      by (simp add: filter_empty_conv)
    then show ?thesis
      using True by (simp add: zx)
  next
    case False
    then have "z \<noteq> x" using Cons.prems(3) by blast
    then have mem: "x \<in> set zs" using Cons.prems(2) by simp
    have "filter P zs = [x]"
      by (rule Cons.IH [OF dz mem Cons.prems(3) uz])
    then show ?thesis
      using False by simp
  qed
qed

section \<open>Redundancy cleanup (C1)\<close>

lemma removeRedundantAccounts_exDomain: "removeRedundantAccounts exDomain = Inr exCleaned"
  by (simp add: exDomain_def exCleaned_def exA_def exB_def exC_def
      removeRedundantAccounts_def started_def activateAuthedAccount_def activeCurrent_def
      sessionExists_def activate_def emit_def assignActive_def scheduleWriteAccounts_def
      removeRedundantLoop.simps eraseAt_def checkForLastProductionConfig_def
      refreshFallbackProductionConfig_def removePasscodeIfEmpty_def Let_def)

text \<open>
  C1, as the spec states it: on a registry of A (active, no live session), B (not active, no
  live session) and C (not active, live session), \<open>removeRedundantAccounts\<close> removes B
  only and leaves A, still active, and C. The code does not do that: on \<open>exDomain\<close> it
  ends with C alone in the registry and C active, because it runs
  \<open>activateAuthedAccount\<close> first, which moves the activation from the logged out A to C,
  and A is then as redundant as B.
\<close>

theorem removeRedundantAccounts_three_counterexample:
  "removeRedundantAccounts exDomain = Inr exCleaned
   \<and> exA \<notin> set (accounts exCleaned)
   \<and> accounts exCleaned \<noteq> [exA, exC]
   \<and> active exCleaned \<noteq> Some (addr (account exA))"
  using removeRedundantAccounts_exDomain
  by (simp add: exCleaned_def exA_def exC_def)

text \<open>
  C1, amended: on a registry that holds exactly A (active, no live session), B (no live
  session) and C (live session), in any order, \<open>removeRedundantAccounts\<close> first makes C
  the active account and then removes both A and B: it returns with C alone in the registry
  and C active. (The accounts of a registry are distinct objects, so their addresses are
  pairwise distinct; B is then not the active account.)
\<close>

theorem removeRedundantAccounts_three:
  assumes reg: "set (accounts d) = {ea, eb, ec}"
    and dist: "distinct (map (\<lambda>e. addr (account e)) (accounts d))"
    and act: "active d = Some (addr (account ea))"
    and a: "\<not> sessionExists (account ea)"
    and b: "\<not> sessionExists (account eb)"
    and c: "sessionExists (account ec)"
  shows "\<exists>d'. removeRedundantAccounts d = Inr d' \<and> accounts d' = [ec] \<and>
           active d' = Some (addr (account ec))"
proof -
  have st: "started d"
    using reg by (auto simp: started_def)
  have amem: "ea \<in> set (accounts d)" and cmem: "ec \<in> set (accounts d)"
    using reg by simp_all
  have cur: "activeCurrent d = Inr (account ea)"
    by (rule activeCurrent_member [OF dist amem act])
  have entries: "distinct (accounts d)"
    using dist by (simp add: distinct_map)
  have onlyc: "\<forall>y\<in>set (accounts d). sessionExists (account y) \<longrightarrow> y = ec"
    unfolding reg using a b by blast
  have first: "find (\<lambda>e. sessionExists (account e)) (accounts d) = Some ec"
    by (rule find_unique [OF cmem c onlyc])
  from activateAuthedAccount_cases [OF st cur]
  obtain d1 where d1: "activateAuthedAccount d = Inr d1"
    and d1act: "activate (addr (account ec)) d = Inr d1"
    and act1: "active d1 = Some (addr (account ec))"
    using a first by auto
  have acc1: "accounts d1 = accounts d"
    using d1act by (rule activate_accounts)
  have inj: "inj_on (\<lambda>e. addr (account e)) (set (accounts d))"
    using dist by (simp add: distinct_map)
  have same_addr: "\<forall>y\<in>set (accounts d). addr (account y) = addr (account ec) \<longrightarrow> y = ec"
    using inj cmem by (blast dest: inj_onD)
  have keepc: "\<not> redundant (active d1) ec"
    by (simp add: redundant_def act1)
  have onlykept: "\<forall>y\<in>set (accounts d). \<not> redundant (active d1) y \<longrightarrow> y = ec"
    using onlyc same_addr unfolding redundant_def act1 by blast
  have kept: "filter (\<lambda>e. \<not> redundant (active d1) e) (accounts d) = [ec]"
    by (rule filter_unique [OF entries cmem keepc onlykept])
  let ?d2 = "removeRedundantLoop 0 d1"
  have acc2: "accounts ?d2 = [ec]"
    using kept by (simp add: removeRedundantLoop_accounts acc1)
  have act2: "active ?d2 = Some (addr (account ec))"
    by (simp add: act1)
  have pass: "removePasscodeIfEmpty ?d2 = Inr (False, ?d2)"
    using c by (simp add: removePasscodeIfEmpty_def activeCurrent_def acc2 act1)
  show ?thesis
    unfolding removeRedundantAccounts_unfold [OF st d1] pass
    by (simp add: acc2 act1)
qed

theorem removeRedundantAccounts_three_witness:
  "set (accounts exDomain) = {exA, exB, exC}
   \<and> distinct (map (\<lambda>e. addr (account e)) (accounts exDomain))
   \<and> active exDomain = Some (addr (account exA))
   \<and> \<not> sessionExists (account exA) \<and> \<not> sessionExists (account exB)
   \<and> sessionExists (account exC)
   \<and> (\<exists>d'. removeRedundantAccounts exDomain = Inr d' \<and> accounts d' = [exC] \<and>
          active d' = Some (addr (account exC)))"
proof -
  have reg: "set (accounts exDomain) = {exA, exB, exC}"
    by (simp add: exDomain_def)
  have dist: "distinct (map (\<lambda>e. addr (account e)) (accounts exDomain))"
    by (simp add: exDomain_def exA_def exB_def exC_def)
  have act: "active exDomain = Some (addr (account exA))"
    by (simp add: exDomain_def exA_def)
  have a: "\<not> sessionExists (account exA)" and b: "\<not> sessionExists (account exB)"
    and c: "sessionExists (account exC)"
    by (simp_all add: sessionExists_def exA_def exB_def exC_def)
  show ?thesis
    using reg dist act a b c removeRedundantAccounts_three [OF reg dist act a b c]
    by blast
qed

lemma activeChangedEvents_append:
  "activeChangedEvents (xs @ ys) = activeChangedEvents xs @ activeChangedEvents ys"
  by (induction xs rule: activeChangedEvents.induct) simp_all

section \<open>Activation of an authenticated account (C3)\<close>

text \<open>
  C3: \<open>activateAuthedAccount\<close>, on a non-empty registry whose active pointer designates
  the account \<open>a\<close>, returns the state unchanged when \<open>a\<close> has a live session; otherwise
  it activates the first account in registry order that has a live session, which is then
  the active one, and returns the state unchanged when no account has a live session.
\<close>

theorem activateAuthedAccount_spec:
  assumes "started d" and "activeCurrent d = Inr a"
  shows "\<exists>d'. activateAuthedAccount d = Inr d' \<and>
           (sessionExists a \<longrightarrow> d' = d) \<and>
           (\<not> sessionExists a \<longrightarrow>
              (case find (\<lambda>e. sessionExists (account e)) (accounts d) of
                 None \<Rightarrow> d' = d
               | Some e \<Rightarrow> activate (addr (account e)) d = Inr d' \<and>
                           active d' = Some (addr (account e)) \<and>
                           accounts d' = accounts d))"
proof -
  from activateAuthedAccount_cases [OF assms] obtain d' where
    run: "activateAuthedAccount d = Inr d'"
    and cases: "if sessionExists a then d' = d
       else case find (\<lambda>e. sessionExists (account e)) (accounts d) of
         None \<Rightarrow> d' = d
       | Some e \<Rightarrow> activate (addr (account e)) d = Inr d' \<and>
                   active d' = Some (addr (account e))"
    by blast
  have "accounts d' = accounts d"
    using cases by (auto split: if_splits option.splits dest: activate_accounts)
  with run cases show ?thesis
    by (auto split: if_splits option.splits)
qed

theorem activateAuthedAccount_spec_witness:
  "started exDomain \<and> activeCurrent exDomain = Inr (account exA)
   \<and> \<not> sessionExists (account exA)
   \<and> find (\<lambda>e. sessionExists (account e)) (accounts exDomain) = Some exC
   \<and> (\<exists>d'. activateAuthedAccount exDomain = Inr d' \<and> active d' = Some (addr (account exC)))"
proof -
  have st: "started exDomain"
    by (simp add: started_def exDomain_def)
  have cur: "activeCurrent exDomain = Inr (account exA)"
    by (simp add: activeCurrent_def exDomain_def exA_def)
  have a: "\<not> sessionExists (account exA)"
    by (simp add: sessionExists_def exA_def)
  have first: "find (\<lambda>e. sessionExists (account e)) (accounts exDomain) = Some exC"
    by (simp add: sessionExists_def exDomain_def exA_def exB_def exC_def)
  show ?thesis
    using st cur a first activateAuthedAccount_spec [OF st cur]
    by auto
qed

section \<open>Activation (C4)\<close>

text \<open>
  C4: \<open>activate\<close> returns the state unchanged when the account is already the active
  one, and fails its assertion when the account is not in the registry. Otherwise it makes
  the account active, records its index as the preferred one, fires the "active changed"
  event exactly once, and calls \<open>scheduleWriteAccounts\<close> if and only if the preferred
  index recorded before differs from the index of the account; that call queues a deferred
  write unless one is already pending.
\<close>

theorem activate_spec:
  "(active d = Some p \<longrightarrow> activate p d = Inr d) \<and>
   (active d \<noteq> Some p \<longrightarrow> findAccount p (accounts d) = None \<longrightarrow>
      activate p d = Inl AssertFailed) \<and>
   (active d \<noteq> Some p \<longrightarrow>
      (\<forall>e. findAccount p (accounts d) = Some e \<longrightarrow>
         (\<exists>d'. activate p d = Inr d' \<and>
            d' = (if accountToActivate d \<noteq> index e then scheduleWriteAccounts else id)
                   (d\<lparr>accountToActivate := index e, active := Some p,
                      effects := effects d @
                        [ActiveLifetimeDestroyed, ActiveChanged (Some p),
                         ActiveSessionsForwarded p]\<rparr>) \<and>
            active d' = Some p \<and> accountToActivate d' = index e \<and>
            activeChangedEvents (effects d') = activeChangedEvents (effects d) @ [Some p] \<and>
            writeAccountsScheduled d' =
              (writeAccountsScheduled d \<or> accountToActivate d \<noteq> index e) \<and>
            onMainCalls d' = onMainCalls d @
              (if accountToActivate d \<noteq> index e \<and> \<not> writeAccountsScheduled d
               then [DeferredWriteAccounts] else []))))"
  by (simp add: activate_unfold scheduleWriteAccounts_def activeChangedEvents_append)

theorem activate_spec_witness:
  "active exDomain \<noteq> Some 12 \<and> findAccount 12 (accounts exDomain) = Some exC
   \<and> accountToActivate exDomain \<noteq> index exC
   \<and> (\<exists>d'. activate 12 exDomain = Inr d' \<and> active d' = Some 12
         \<and> accountToActivate d' = 2
         \<and> activeChangedEvents (effects d') = [Some 12]
         \<and> writeAccountsScheduled d' \<and> onMainCalls d' = [DeferredWriteAccounts])
   \<and> activate 10 exDomain = Inr exDomain
   \<and> activate 99 exDomain = Inl AssertFailed"
proof -
  have na: "active exDomain \<noteq> Some 12" and nb: "active exDomain \<noteq> Some 99"
    and ac: "active exDomain = Some 10"
    by (simp_all add: exDomain_def)
  have fc: "findAccount 12 (accounts exDomain) = Some exC"
    and fn: "findAccount 99 (accounts exDomain) = None"
    by (simp_all add: exDomain_def exA_def exB_def exC_def)
  have ix: "accountToActivate exDomain \<noteq> index exC"
    and fields: "index exC = 2" "writeAccountsScheduled exDomain = False"
      "onMainCalls exDomain = []" "effects exDomain = []"
    by (simp_all add: exDomain_def exC_def)
  show ?thesis
    using activate_spec [of exDomain 12] activate_spec [of exDomain 10]
      activate_spec [of exDomain 99] na nb ac fc fn ix fields
    by auto
qed

section \<open>Config provisioning (C5)\<close>

lemma firstConfigFor_find:
  "firstConfigFor env es =
     map_option (\<lambda>e. mtp_config (account e)) (find (\<lambda>e. mtp_environment (account e) = env) es)"
  by (induction es) simp_all

lemma watchSession_fields [simp]:
  "accounts (watchSession p d) = accounts d"
  "active (watchSession p d) = active d"
  by (simp_all add: watchSession_def)

text \<open>
  C5: for every environment, \<open>add\<close> on a started registry whose active pointer designates
  the account \<open>a\<close> appends one account, without a session and not activated, whose config
  is: the config of \<open>a\<close> when \<open>a\<close> uses the environment; else the config of the first
  account in registry order that uses it; else the fallback production config when the
  environment is production; else the default config constructed for the environment.
\<close>

theorem add_config_priority:
  assumes "started d" and "activeCurrent d = Inr a"
  shows "\<exists>d'. add mk p env d = Inr (p, d') \<and> active d' = active d \<and>
     accounts d' = accounts d @
       [\<lparr>index = add_index (accounts d) 0,
         account = \<lparr>addr = p, session = None, mtp_environment = env,
           mtp_config =
             (if mtp_environment a = env then mtp_config a
              else case find (\<lambda>e. mtp_environment (account e) = env) (accounts d) of
                Some e \<Rightarrow> mtp_config (account e)
              | None \<Rightarrow>
                  if env = Production then fallbackProductionConfig d else mk env)\<rparr>\<rparr>]"
  using assms
  by (simp add: add_def newAccount_def add_config_def firstConfigFor_find Let_def
      split: option.splits)

theorem add_config_priority_witness:
  "started exDomain \<and> activeCurrent exDomain = Inr (account exA)
   \<and> (\<exists>d'. add (\<lambda>env. 0) 13 Production exDomain = Inr (13, d') \<and>
         map (\<lambda>e. mtp_config (account e)) (accounts d') = [100, 101, 102, 100])
   \<and> (\<exists>d'. add (\<lambda>env. 0) 13 Test exDomain = Inr (13, d') \<and>
         map (\<lambda>e. mtp_config (account e)) (accounts d') = [100, 101, 102, 102])"
proof -
  have st: "started exDomain"
    by (simp add: started_def exDomain_def)
  have cur: "activeCurrent exDomain = Inr (account exA)"
    by (simp add: activeCurrent_def exDomain_def exA_def)
  have cfgs: "map (\<lambda>e. mtp_config (account e)) (accounts exDomain) = [100, 101, 102]"
    and envA: "mtp_environment (account exA) = Production" "mtp_config (account exA) = 100"
    and first: "find (\<lambda>e. mtp_environment (account e) = Test) (accounts exDomain) = Some exC"
    and cfgC: "mtp_config (account exC) = 102"
    by (simp_all add: exDomain_def exA_def exB_def exC_def)
  from add_config_priority [OF st cur, of "\<lambda>env. 0" 13 Production]
  have prod: "\<exists>d'. add (\<lambda>env. 0) 13 Production exDomain = Inr (13, d') \<and>
         map (\<lambda>e. mtp_config (account e)) (accounts d') = [100, 101, 102, 100]"
    using cfgs envA by auto
  from add_config_priority [OF st cur, of "\<lambda>env. 0" 13 Test]
  have test: "\<exists>d'. add (\<lambda>env. 0) 13 Test exDomain = Inr (13, d') \<and>
         map (\<lambda>e. mtp_config (account e)) (accounts d') = [100, 101, 102, 102]"
    using cfgs envA first cfgC by auto
  show ?thesis
    using st cur prod test by blast
qed

section \<open>Badge recompute (C7)\<close>

lemma unreadBadgeLoop_fold:
  "unreadBadgeLoop es (n, m) =
     (n + sum_list (map data_unreadBadge (List.map_filter (\<lambda>e. session (account e)) es)),
      m \<and> list_all data_unreadBadgeMuted (List.map_filter (\<lambda>e. session (account e)) es))"
  by (induction es arbitrary: n m)
    (auto simp: List.map_filter_simps add.assoc split: option.splits)

lemma sint_sum_list:
  "sint (sum_list ws) = signed_take_bit (LENGTH('a) - Suc 0) (sum_list (map sint ws))"
  for ws :: "'a::len word list"
proof (induction ws)
  case Nil
  then show ?case by simp
next
  case (Cons w ws)
  have "sint (w + sum_list ws)
      = signed_take_bit (LENGTH('a) - Suc 0) (sint w + sint (sum_list ws))"
    by (simp add: sint_word_ariths)
  also have "\<dots> = signed_take_bit (LENGTH('a) - Suc 0)
      (sint w + signed_take_bit (LENGTH('a) - Suc 0) (sum_list (map sint ws)))"
    unfolding Cons.IH ..
  also have "\<dots> = signed_take_bit (LENGTH('a) - Suc 0)
      (signed_take_bit (LENGTH('a) - Suc 0) (sint w)
        + signed_take_bit (LENGTH('a) - Suc 0)
            (signed_take_bit (LENGTH('a) - Suc 0) (sum_list (map sint ws))))"
    by (rule signed_take_bit_add [symmetric])
  also have "\<dots> = signed_take_bit (LENGTH('a) - Suc 0)
      (signed_take_bit (LENGTH('a) - Suc 0) (sint w)
        + signed_take_bit (LENGTH('a) - Suc 0) (sum_list (map sint ws)))"
    by simp
  also have "\<dots> = signed_take_bit (LENGTH('a) - Suc 0) (sint w + sum_list (map sint ws))"
    by (rule signed_take_bit_add)
  finally show ?case by simp
qed

lemma sint_sum_list_exact:
  fixes ws :: "32 word list"
  assumes "- (2 ^ 31) \<le> sum_list (map sint ws)" and "sum_list (map sint ws) < 2 ^ 31"
  shows "sint (sum_list ws) = sum_list (map sint ws)"
proof -
  have "sint (sum_list ws) = signed_take_bit 31 (sum_list (map sint ws))"
    using sint_sum_list [of ws] by simp
  also have "\<dots> = sum_list (map sint ws)"
    using assms by (rule signed_take_bit_int_eq_self)
  finally show ?thesis .
qed

lemma unreadBadgeChanged_fields [simp]:
  "unreadBadge (unreadBadgeChanged p s d) = unreadBadge d"
  "unreadBadgeMuted (unreadBadgeChanged p s d) = unreadBadgeMuted d"
  "effects (unreadBadgeChanged p s d) = effects d"
  by (simp_all add: unreadBadgeChanged_def scheduleUpdateUnreadBadge_def setSession_def
      split: option.splits)

lemma unreadBadgeBurst_fields [simp]:
  "unreadBadge (unreadBadgeBurst ts d) = unreadBadge d"
  "unreadBadgeMuted (unreadBadgeBurst ts d) = unreadBadgeMuted d"
  "effects (unreadBadgeBurst ts d) = effects d"
  by (induction ts d rule: unreadBadgeBurst.induct) simp_all

lemma updateUnreadBadge_result:
  "unreadBadge (updateUnreadBadge during d) = sum_list (map data_unreadBadge (liveSessions d))"
  "unreadBadgeMuted (updateUnreadBadge during d)
     = list_all data_unreadBadgeMuted (liveSessions d)"
  "effects (updateUnreadBadge during d) = effects d @ [UnreadBadgeChangesFired]"
  by (simp_all add: updateUnreadBadge_def fireUnreadBadgeChanges_def unreadBadgeLoop_fold
      liveSessions_def emit_def)

text \<open>
  C7: every run of \<open>updateUnreadBadge\<close> sets the count to the sum of the unread counts of
  exactly the accounts with a live session, added as the code adds them, in 32-bit
  arithmetic; read as a signed number the count is the sum of the signed counts whenever
  that sum is in the range of \<open>int\<close>. It sets the muted flag to the conjunction of their
  mutedness (true when there is none) and fires the "changed" event once, whatever the
  values were before. If nothing arrives while the event is delivered, the registry is as it
  was.
\<close>

theorem updateUnreadBadge_spec:
  "unreadBadge (updateUnreadBadge during d) = sum_list (map data_unreadBadge (liveSessions d)) \<and>
   (- (2 ^ 31) \<le> (\<Sum>s\<leftarrow>liveSessions d. sint (data_unreadBadge s)) \<and>
    (\<Sum>s\<leftarrow>liveSessions d. sint (data_unreadBadge s)) < 2 ^ 31 \<longrightarrow>
      sint (unreadBadge (updateUnreadBadge during d))
        = (\<Sum>s\<leftarrow>liveSessions d. sint (data_unreadBadge s))) \<and>
   unreadBadgeMuted (updateUnreadBadge during d) =
     (\<forall>s\<in>set (liveSessions d). data_unreadBadgeMuted s) \<and>
   effects (updateUnreadBadge during d) = effects d @ [UnreadBadgeChangesFired] \<and>
   accounts (updateUnreadBadge [] d) = accounts d"
proof -
  have exact: "sint (sum_list (map data_unreadBadge (liveSessions d)))
      = (\<Sum>s\<leftarrow>liveSessions d. sint (data_unreadBadge s))"
    if "- (2 ^ 31) \<le> (\<Sum>s\<leftarrow>liveSessions d. sint (data_unreadBadge s))"
      and "(\<Sum>s\<leftarrow>liveSessions d. sint (data_unreadBadge s)) < 2 ^ 31"
    using sint_sum_list_exact [of "map data_unreadBadge (liveSessions d)"] that
    by (simp add: comp_def)
  have same: "accounts (updateUnreadBadge [] d) = accounts d"
    by (simp add: updateUnreadBadge_def fireUnreadBadgeChanges_def split: prod.splits)
  show ?thesis
    using exact same by (simp add: updateUnreadBadge_result list_all_iff)
qed

theorem updateUnreadBadge_spec_witness:
  "liveSessions exDomain = [\<lparr>data_unreadBadge = 5, data_unreadBadgeMuted = False\<rparr>]
   \<and> unreadBadge (updateUnreadBadge [] exDomain) = 5
   \<and> sint (unreadBadge (updateUnreadBadge [] exDomain)) = 5
   \<and> \<not> unreadBadgeMuted (updateUnreadBadge [] exDomain)
   \<and> effects (updateUnreadBadge [] exDomain) = [UnreadBadgeChangesFired]
   \<and> liveSessions (exDomain\<lparr>accounts := [exA]\<rparr>) = []
   \<and> unreadBadge (updateUnreadBadge [] (exDomain\<lparr>accounts := [exA]\<rparr>)) = 0
   \<and> unreadBadgeMuted (updateUnreadBadge [] (exDomain\<lparr>accounts := [exA]\<rparr>))
   \<and> sint (unreadBadge (updateUnreadBadge [] (exDomain\<lparr>accounts := [exFull, exOne]\<rparr>)))
       = - 2147483648"
proof -
  let ?wrap = "exDomain\<lparr>accounts := [exFull, exOne]\<rparr>"
  have live: "liveSessions exDomain = [\<lparr>data_unreadBadge = 5, data_unreadBadgeMuted = False\<rparr>]"
    and none: "liveSessions (exDomain\<lparr>accounts := [exA]\<rparr>) = []"
    and two: "map data_unreadBadge (liveSessions ?wrap) = [2147483647, 1]"
    and eff: "effects exDomain = []"
    by (simp_all add: liveSessions_def List.map_filter_simps exDomain_def exA_def exB_def
        exC_def exFull_def exOne_def)
  have five: "unreadBadge (updateUnreadBadge [] exDomain) = 5"
    using updateUnreadBadge_spec [of "[]" exDomain] live by simp
  have signed: "sint (unreadBadge (updateUnreadBadge [] exDomain)) = 5"
    unfolding five by simp
  have wrapped: "sint (unreadBadge (updateUnreadBadge [] ?wrap)) = - 2147483648"
    using updateUnreadBadge_spec [of "[]" ?wrap] two by simp
  show ?thesis
    using updateUnreadBadge_spec [of "[]" exDomain]
      updateUnreadBadge_spec [of "[]" "exDomain\<lparr>accounts := [exA]\<rparr>"]
      live none eff five signed wrapped
    by simp
qed

section \<open>Passcode auto-clear (C9, C10)\<close>

lemma activeValid_single:
  "activeValid d \<Longrightarrow> accounts d = [e] \<Longrightarrow> activeCurrent d = Inr (account e)"
  by (simp add: activeValid_def activeCurrent_def)

text \<open>
  C9: in a state that satisfies the active invariant, \<open>removePasscodeIfEmpty\<close> returns
  true exactly when the registry holds one account, that account has no live session and a
  passcode is set, and then the passcode is cleared; in every other case it returns false
  and the passcode is as before, and with two or more accounts the whole state is as before.
\<close>

theorem removePasscodeIfEmpty_spec:
  assumes "activeValid d"
  shows "\<exists>d'. removePasscodeIfEmpty d =
            Inr (length (accounts d) = 1 \<and> \<not> sessionExists (account (hd (accounts d)))
                   \<and> localPasscode d, d') \<and>
           (if length (accounts d) = 1 \<and> \<not> sessionExists (account (hd (accounts d)))
                \<and> localPasscode d
            then storedPasscode d' = [] \<and> \<not> localPasscode d'
            else storedPasscode d' = storedPasscode d \<and> localPasscode d' = localPasscode d) \<and>
           (2 \<le> length (accounts d) \<longrightarrow> d' = d)"
proof (cases "accounts d")
  case Nil
  then show ?thesis
    by (simp add: removePasscodeIfEmpty_def)
next
  case (Cons e es)
  show ?thesis
  proof (cases es)
    case Nil
    with Cons have one: "accounts d = [e]" by simp
    have cur: "activeCurrent d = Inr (account e)"
      by (rule activeValid_single [OF assms one])
    show ?thesis
      by (simp add: removePasscodeIfEmpty_def one cur Let_def emit_def setPasscode_def)
  next
    case (Cons e' es')
    then show ?thesis
      using \<open>accounts d = e # es\<close> by (simp add: removePasscodeIfEmpty_def)
  qed
qed

theorem removePasscodeIfEmpty_spec_witness:
  "activeValid (exDomain\<lparr>accounts := [exA], localPasscode := True, storedPasscode := ''pw''\<rparr>)
   \<and> (\<exists>d'. removePasscodeIfEmpty
              (exDomain\<lparr>accounts := [exA], localPasscode := True, storedPasscode := ''pw''\<rparr>)
            = Inr (True, d') \<and> storedPasscode d' = [] \<and> \<not> localPasscode d')
   \<and> activeValid (exDomain\<lparr>localPasscode := True, storedPasscode := ''pw''\<rparr>)
   \<and> removePasscodeIfEmpty (exDomain\<lparr>localPasscode := True, storedPasscode := ''pw''\<rparr>)
       = Inr (False, exDomain\<lparr>localPasscode := True, storedPasscode := ''pw''\<rparr>)"
proof -
  let ?one = "exDomain\<lparr>accounts := [exA], localPasscode := True, storedPasscode := ''pw''\<rparr>"
  let ?three = "exDomain\<lparr>localPasscode := True, storedPasscode := ''pw''\<rparr>"
  have v1: "activeValid ?one" and v3: "activeValid ?three"
    by (simp_all add: activeValid_def exDomain_def exA_def exB_def exC_def)
  have f1: "length (accounts ?one) = 1" "\<not> sessionExists (account (hd (accounts ?one)))"
      "localPasscode ?one"
    and f3: "length (accounts ?three) = 3"
    by (simp_all add: exDomain_def exA_def sessionExists_def)
  have r1: "\<exists>d'. removePasscodeIfEmpty ?one = Inr (True, d') \<and> storedPasscode d' = []
      \<and> \<not> localPasscode d'"
    using removePasscodeIfEmpty_spec [OF v1] f1 by simp
  have r3: "removePasscodeIfEmpty ?three = Inr (False, ?three)"
    using removePasscodeIfEmpty_spec [OF v3] f3 by simp
  show ?thesis
    using v1 v3 r1 r3 by blast
qed

text \<open>
  C10: when the registry holds exactly one account, the active one, and it has no live
  session, \<open>removePasscodeIfEmpty\<close> calls \<open>Local::reset\<close> first and looks at the
  passcode flag after it: without a passcode the call returns false and the reset is the
  one effect it had; with a passcode the reset precedes the unlocking and the clearing.
\<close>

theorem removePasscodeIfEmpty_resets:
  assumes "accounts d = [e]" and "active d = Some (addr (account e))"
    and "\<not> sessionExists (account e)"
  shows "\<exists>d'. removePasscodeIfEmpty d = Inr (localPasscode d, d') \<and>
           effects d' = effects d @ LocalReset #
             (if localPasscode d then [UnlockPasscode, SetPasscode []] else [])"
  using assms
  by (simp add: removePasscodeIfEmpty_def activeCurrent_def Let_def emit_def setPasscode_def)

theorem removePasscodeIfEmpty_resets_witness:
  "accounts (exDomain\<lparr>accounts := [exA]\<rparr>) = [exA]
   \<and> active (exDomain\<lparr>accounts := [exA]\<rparr>) = Some (addr (account exA))
   \<and> \<not> sessionExists (account exA)
   \<and> \<not> localPasscode (exDomain\<lparr>accounts := [exA]\<rparr>)
   \<and> (\<exists>d'. removePasscodeIfEmpty (exDomain\<lparr>accounts := [exA]\<rparr>) = Inr (False, d') \<and>
          effects d' = [LocalReset])"
proof -
  let ?one = "exDomain\<lparr>accounts := [exA]\<rparr>"
  have reg: "accounts ?one = [exA]"
    and act: "active ?one = Some (addr (account exA))"
    and a: "\<not> sessionExists (account exA)"
    and np: "\<not> localPasscode ?one" and eff: "effects ?one = []"
    by (simp_all add: exDomain_def exA_def sessionExists_def)
  show ?thesis
    using removePasscodeIfEmpty_resets [OF reg act a] reg act a np eff
    by simp
qed

section \<open>Index uniqueness (C2)\<close>

lemma checkRepeatedIndex_iff:
  "checkRepeatedIndex i es =
     (if i \<in> index ` set es then Inl (Unexpected ''Repeated account index.'') else Inr ())"
  by (induction es) auto

lemma add_index_fresh: "add_index es i \<notin> index ` set es"
proof (induction es i rule: add_index.induct)
  case (1 es i)
  show ?case
  proof (cases "i \<in> index ` set es")
    case True
    then have "add_index es i = add_index es (i + 1)"
      by (subst add_index.simps) simp
    with "1.IH" [OF True] show ?thesis by simp
  next
    case False
    then have "add_index es i = i"
      by (subst add_index.simps) simp
    with False show ?thesis by simp
  qed
qed

lemma add_index_least:
  "i \<le> add_index es i \<and> (\<forall>j. i \<le> j \<and> j < add_index es i \<longrightarrow> j \<in> index ` set es)"
proof (induction es i rule: add_index.induct)
  case (1 es i)
  show ?case
  proof (cases "i \<in> index ` set es")
    case True
    then have eq: "add_index es i = add_index es (i + 1)"
      by (subst add_index.simps) simp
    have ih: "i + 1 \<le> add_index es (i + 1)"
      "\<forall>j. i + 1 \<le> j \<and> j < add_index es (i + 1) \<longrightarrow> j \<in> index ` set es"
      using "1.IH" [OF True] by blast+
    have "\<forall>j. i \<le> j \<and> j < add_index es (i + 1) \<longrightarrow> j \<in> index ` set es"
    proof (intro allI impI)
      fix j assume j: "i \<le> j \<and> j < add_index es (i + 1)"
      show "j \<in> index ` set es"
      proof (cases "j = i")
        case True
        then show ?thesis using \<open>i \<in> index ` set es\<close> by simp
      next
        case False
        then have "i + 1 \<le> j" using j by simp
        then show ?thesis using ih(2) j by blast
      qed
    qed
    then show ?thesis
      using ih(1) by (simp add: eq)
  next
    case False
    then have "add_index es i = i"
      by (subst add_index.simps) simp
    then show ?thesis by auto
  qed
qed

lemma activateAuthedAccount_accounts:
  assumes "activateAuthedAccount d = Inr d'"
  shows "accounts d' = accounts d"
proof -
  from assms have st: "started d"
    by (simp add: activateAuthedAccount_def split: if_splits)
  from assms st obtain a where cur: "activeCurrent d = Inr a"
    by (cases "activeCurrent d") (simp_all add: activateAuthedAccount_def)
  show ?thesis
  proof (cases "sessionExists a")
    case True
    then show ?thesis
      using assms st cur by (simp add: activateAuthedAccount_def)
  next
    case False
    then have run: "activateFirstAuthed (accounts d) d = Inr d'"
      using assms st cur by (simp add: activateAuthedAccount_def)
    show ?thesis
    proof (cases "find (\<lambda>e. sessionExists (account e)) (accounts d)")
      case None
      then show ?thesis using run by (simp add: activateFirstAuthed_find)
    next
      case (Some e)
      then have "activate (addr (account e)) d = Inr d'"
        using run by (simp add: activateFirstAuthed_find)
      then show ?thesis by (rule activate_accounts)
    qed
  qed
qed

lemma removeRedundantAccounts_accounts:
  assumes "removeRedundantAccounts d = Inr d'"
  shows "\<exists>P. accounts d' = filter P (accounts d)"
proof -
  from removeRedundantAccounts_registry [OF assms] obtain d1 where
    d1: "activateAuthedAccount d = Inr d1"
    and acc: "accounts d' = filter (\<lambda>e. \<not> redundant (active d1) e) (accounts d1)"
    by blast
  have "accounts d1 = accounts d"
    using d1 by (rule activateAuthedAccount_accounts)
  with acc show ?thesis by auto
qed

lemma setSession_indices [simp]:
  "map index (accounts (setSession p s d)) = map index (accounts d)"
  by (simp add: setSession_def comp_def)

lemma scheduleUpdateUnreadBadge_fields [simp]:
  "accounts (scheduleUpdateUnreadBadge d) = accounts d"
  "active (scheduleUpdateUnreadBadge d) = active d"
  "effects (scheduleUpdateUnreadBadge d) = effects d"
  by (simp_all add: scheduleUpdateUnreadBadge_def)

lemma unreadBadgeChanged_indices [simp]:
  "map index (accounts (unreadBadgeChanged p s d)) = map index (accounts d)"
  by (simp add: unreadBadgeChanged_def split: option.splits)

lemma unreadBadgeBurst_indices [simp]:
  "map index (accounts (unreadBadgeBurst ts d)) = map index (accounts d)"
  by (induction ts d rule: unreadBadgeBurst.induct) simp_all

lemma updateUnreadBadge_indices [simp]:
  "map index (accounts (updateUnreadBadge during d)) = map index (accounts d)"
  by (simp add: updateUnreadBadge_def fireUnreadBadgeChanges_def split: prod.splits)

lemma sessionLost_accounts:
  assumes "sessionLost p d = Inr d'"
  shows "accounts d' = accounts d"
proof (cases "Some p = active d")
  case True
  then obtain d2 where d2: "activateAuthedAccount (scheduleUpdateUnreadBadge d) = Inr d2"
    and d': "d' = d2\<lparr>onMainCalls := onMainCalls d2 @ [DeferredRemoveRedundantAccounts]\<rparr>"
    using assms by (auto simp: sessionLost_def Let_def split: sum.splits)
  have "accounts d2 = accounts (scheduleUpdateUnreadBadge d)"
    using d2 by (rule activateAuthedAccount_accounts)
  then show ?thesis by (simp add: d')
next
  case False
  then show ?thesis
    using assms by (auto simp: sessionLost_def Let_def)
qed

lemma activateAfterStartingLoop_accounts:
  "activateAfterStartingLoop es t d = (t', d') \<Longrightarrow> accounts d' = accounts d"
  by (induction es arbitrary: t d) auto

lemma activateAfterStarting_accounts:
  assumes "activateAfterStarting d = Inr d'"
  shows "accounts d' = accounts d"
proof -
  from assms obtain front rest where reg: "accounts d = front # rest"
    by (cases "accounts d") (simp_all add: activateAfterStarting_def)
  obtain t d1 where loop: "activateAfterStartingLoop (accounts d) (addr (account front)) d = (t, d1)"
    by (cases "activateAfterStartingLoop (accounts d) (addr (account front)) d") blast
  from assms reg loop obtain d2 where d2: "activate t d1 = Inr d2"
    by (cases "activate t d1") (simp_all add: activateAfterStarting_def)
  from assms reg loop d2 obtain r where d3: "removePasscodeIfEmpty d2 = Inr (r, d')"
    by (cases "removePasscodeIfEmpty d2") (auto simp: activateAfterStarting_def)
  have "accounts d' = accounts d2"
    by (rule removePasscodeIfEmpty_frame(1) [OF d3])
  also have "\<dots> = accounts d1"
    using d2 by (rule activate_accounts)
  also have "\<dots> = accounts d"
    using loop by (rule activateAfterStartingLoop_accounts)
  finally show ?thesis .
qed

lemma uniqueIndices_same:
  "map index (accounts d') = map index (accounts d) \<Longrightarrow> uniqueIndices d \<Longrightarrow> uniqueIndices d'"
  by (simp add: uniqueIndices_def)

lemma uniqueIndices_filter:
  "accounts d' = filter P (accounts d) \<Longrightarrow> uniqueIndices d \<Longrightarrow> uniqueIndices d'"
  by (simp add: uniqueIndices_def distinct_map_filter)

lemma removeRedundantAccounts_unique:
  assumes "removeRedundantAccounts d = Inr d'" and "uniqueIndices d"
  shows "uniqueIndices d'"
proof -
  from removeRedundantAccounts_accounts [OF assms(1)]
  obtain P where "accounts d' = filter P (accounts d)" by blast
  then show ?thesis using assms(2) by (rule uniqueIndices_filter)
qed

lemma runDeferred_unique:
  assumes "runDeferred during c d = Inr d'" and "uniqueIndices d"
  shows "uniqueIndices d'"
proof (cases c)
  case DeferredUpdateUnreadBadge
  then have "d' = updateUnreadBadge during (d\<lparr>unreadBadgeUpdateScheduled := False\<rparr>)"
    using assms(1) by (simp add: runDeferred_def)
  then show ?thesis using assms(2) by (simp add: uniqueIndices_def)
next
  case DeferredWriteAccounts
  then have "d' = emit WriteAccounts (d\<lparr>writeAccountsScheduled := False\<rparr>)"
    using assms(1) by (simp add: runDeferred_def)
  then show ?thesis using assms(2) by (simp add: uniqueIndices_def)
next
  case DeferredRemoveRedundantAccounts
  then have "removeRedundantAccounts d = Inr d'"
    using assms(1) by (simp add: runDeferred_def)
  then show ?thesis using assms(2) by (rule removeRedundantAccounts_unique)
qed

lemma applyOp_unique:
  assumes "applyOp mk op d = Inr d'" and "uniqueIndices d"
  shows "uniqueIndices d'"
proof (cases op)
  case (OpAccountAddedInStorage i ao)
  then show ?thesis
    using assms
    by (auto simp: accountAddedInStorage_def checkRepeatedIndex_iff uniqueIndices_def
        split: option.splits if_splits)
next
  case (OpActivateFromStorage i)
  then show ?thesis
    using assms by (auto simp: activateFromStorage_def uniqueIndices_def)
next
  case OpActivateAfterStarting
  then have "accounts d' = accounts d"
    using assms(1) by (simp add: activateAfterStarting_accounts)
  then show ?thesis using assms(2) by (simp add: uniqueIndices_def)
next
  case (OpAdd p environment)
  then obtain config where
    "accounts d' = accounts d @ [\<lparr>index = add_index (accounts d) 0,
        account = \<lparr>addr = p, session = None, mtp_environment = environment,
          mtp_config = config\<rparr>\<rparr>]"
    using assms(1)
    by (auto simp: add_def newAccount_def Let_def watchSession_def emit_def
        split: if_splits sum.splits)
  then show ?thesis
    using assms(2) add_index_fresh [of "accounts d" 0] by (simp add: uniqueIndices_def)
next
  case (OpActivate p)
  then have "accounts d' = accounts d"
    using assms(1) by (simp add: activate_accounts)
  then show ?thesis using assms(2) by (simp add: uniqueIndices_def)
next
  case OpRemoveRedundantAccounts
  then show ?thesis
    using assms by (simp add: removeRedundantAccounts_unique)
next
  case OpFinish
  then show ?thesis
    using assms(1) by (auto simp: finish_def Let_def uniqueIndices_def)
next
  case (OpSessionCreated p s)
  then show ?thesis
    using assms by (auto simp: sessionCreated_def uniqueIndices_def)
next
  case (OpSessionDestroyed p)
  then have "sessionLost p (setSession p None d) = Inr d'"
    using assms(1) by (simp add: sessionDestroyed_def)
  then have "accounts d' = accounts (setSession p None d)"
    by (rule sessionLost_accounts)
  then show ?thesis using assms(2) by (simp add: uniqueIndices_def)
next
  case (OpUnreadBadgeChanged p s)
  then have "map index (accounts d') = map index (accounts d)"
    using assms(1) by auto
  then show ?thesis using assms(2) by (rule uniqueIndices_same)
next
  case (OpRunPostponed during)
  then show ?thesis
    using assms
    by (auto simp: runPostponed_def uniqueIndices_def split: list.splits
        dest!: runDeferred_unique)
next
  case (OpRunOnMain during)
  then show ?thesis
    using assms
    by (auto simp: runOnMain_def uniqueIndices_def split: list.splits
        dest!: runDeferred_unique)
qed

lemma run_unique:
  "run mk ops d = Inr d' \<Longrightarrow> uniqueIndices d \<Longrightarrow> uniqueIndices d'"
proof (induction ops arbitrary: d)
  case Nil
  then show ?case by simp
next
  case (Cons op ops)
  from Cons.prems(1) obtain d1 where step: "applyOp mk op d = Inr d1"
    and rest: "run mk ops d1 = Inr d'"
    by (cases "applyOp mk op d") simp_all
  have "uniqueIndices d1"
    using step Cons.prems(2) by (rule applyOp_unique)
  with rest show ?case by (rule Cons.IH)
qed

text \<open>
  C2: in every state that a sequence of calls reaches from an empty registry (any sequence,
  so also each of its prefixes), the indices of the registry entries are pairwise distinct.
  In such a state \<open>accountAddedInStorage\<close> with an index that is in use ends in the fatal
  \<open>Unexpected("Repeated account index.")\<close>, and \<open>add\<close>, which looks its index up
  in the registry before it inserts, leaves the indices pairwise distinct.
\<close>

theorem index_uniqueness:
  assumes "accounts d0 = []" and "run mk ops d0 = Inr d"
  shows "distinct (map index (accounts d)) \<and>
     (\<forall>i a. i \<in> index ` set (accounts d) \<longrightarrow>
        accountAddedInStorage i (Some a) d = Inl (Unexpected ''Repeated account index.'')) \<and>
     (\<forall>p environment q d'. add mk p environment d = Inr (q, d') \<longrightarrow>
        distinct (map index (accounts d')))"
proof -
  have "uniqueIndices d0"
    using assms(1) by (simp add: uniqueIndices_def)
  with assms(2) have u: "uniqueIndices d"
    by (rule run_unique)
  have "uniqueIndices d'" if "add mk p environment d = Inr (q, d')" for p environment q d'
  proof -
    have "applyOp mk (OpAdd p environment) d = Inr d'"
      using that by simp
    then show ?thesis using u by (rule applyOp_unique)
  qed
  then show ?thesis
    using u by (auto simp: uniqueIndices_def accountAddedInStorage_def checkRepeatedIndex_iff)
qed

lemma run_exOps:
  "map_sum id (\<lambda>d. map index (accounts d)) (run (\<lambda>env. 0) exOps (initial 7)) = Inr [0, 2, 1]"
  by code_simp

theorem index_uniqueness_witness:
  "accounts (initial 7 :: nat Domain) = []
   \<and> (\<exists>d. run (\<lambda>env. 0) exOps (initial 7) = Inr d
         \<and> map index (accounts d) = [0, 2, 1]
         \<and> distinct (map index (accounts d))
         \<and> accountAddedInStorage 2 (Some (account exB)) d
             = Inl (Unexpected ''Repeated account index.''))"
proof -
  have empty: "accounts (initial 7 :: nat Domain) = []"
    by (simp add: initial_def)
  obtain d where run: "run (\<lambda>env. 0) exOps (initial 7) = Inr d"
    and idx: "map index (accounts d) = [0, 2, 1]"
    using run_exOps by (cases "run (\<lambda>env. 0) exOps (initial 7)") simp_all
  have "2 \<in> set (map index (accounts d))"
    unfolding idx by simp
  then have mem: "2 \<in> index ` set (accounts d)"
    by simp
  note u = index_uniqueness [OF empty run]
  have dist: "distinct (map index (accounts d))"
    by (rule u [THEN conjunct1])
  have rep: "accountAddedInStorage 2 (Some (account exB)) d
      = Inl (Unexpected ''Repeated account index.'')"
    by (rule u [THEN conjunct2, THEN conjunct1, rule_format, OF mem])
  have "\<exists>d. run (\<lambda>env. 0) exOps (initial 7) = Inr d
         \<and> map index (accounts d) = [0, 2, 1]
         \<and> distinct (map index (accounts d))
         \<and> accountAddedInStorage 2 (Some (account exB)) d
             = Inl (Unexpected ''Repeated account index.'')"
    by (intro exI [of _ d] conjI run idx dist rep)
  with empty show ?thesis
    by (rule conjI)
qed

section \<open>The last production config (C6)\<close>

lemma otherProduction_iff:
  "otherProduction p es \<longleftrightarrow>
     (\<exists>e\<in>set es. addr (account e) \<noteq> p \<and> mtp_environment (account e) = Production)"
  by (induction es) auto

lemma erase_set:
  assumes "distinct xs" and "i < length xs"
  shows "set (take i xs @ drop (Suc i) xs) = set xs - {xs ! i}"
proof -
  have split: "xs = take i xs @ xs ! i # drop (Suc i) xs"
    using assms(2) by (rule id_take_nth_drop)
  have "distinct (take i xs @ xs ! i # drop (Suc i) xs)"
    using assms(1) split by simp
  then have out: "xs ! i \<notin> set (take i xs)" "xs ! i \<notin> set (drop (Suc i) xs)"
    by simp_all
  have "set xs = set (take i xs) \<union> {xs ! i} \<union> set (drop (Suc i) xs)"
    by (subst split) simp
  with out show ?thesis by auto
qed

lemma otherProduction_erased:
  assumes dist: "distinct (map (\<lambda>e. addr (account e)) es)" and i: "i < length es"
  shows "otherProduction (addr (account (es ! i))) es \<longleftrightarrow>
     (\<exists>e\<in>set (take i es @ drop (Suc i) es). isProduction e)"
proof -
  have dxs: "distinct es"
    using dist by (simp add: distinct_map)
  have inj: "inj_on (\<lambda>e. addr (account e)) (set es)"
    using dist by (simp add: distinct_map)
  have mem: "es ! i \<in> set es"
    using i by simp
  have same: "\<forall>e\<in>set es. (addr (account e) \<noteq> addr (account (es ! i))) = (e \<noteq> es ! i)"
    using inj mem by (blast dest: inj_onD)
  have "otherProduction (addr (account (es ! i))) es \<longleftrightarrow>
      (\<exists>e\<in>set es. e \<noteq> es ! i \<and> isProduction e)"
    unfolding otherProduction_iff isProduction_def using same by blast
  also have "\<dots> \<longleftrightarrow> (\<exists>e\<in>set es - {es ! i}. isProduction e)"
    by blast
  finally show ?thesis
    unfolding erase_set [OF dxs i] .
qed

lemma distinct_erased:
  assumes "distinct (map f xs)"
  shows "distinct (map f (take i xs @ drop (Suc i) xs))"
proof -
  let ?ys = "map f xs"
  have "distinct (take i ?ys @ drop i ?ys)"
    using assms by simp
  then have front: "distinct (take i ?ys)" and apart: "set (take i ?ys) \<inter> set (drop i ?ys) = {}"
    unfolding distinct_append by blast+
  have sub: "set (drop (Suc i) ?ys) \<subseteq> set (drop i ?ys)"
    by (rule set_drop_subset_set_drop) simp
  have rear: "distinct (drop (Suc i) ?ys)"
    using assms by (rule distinct_drop)
  have "set (take i ?ys) \<inter> set (drop (Suc i) ?ys) = {}"
    using apart sub by blast
  with front rear have "distinct (take i ?ys @ drop (Suc i) ?ys)"
    by simp
  then show ?thesis
    by (simp add: take_map drop_map)
qed

lemma checkForLastProductionConfig_fallback:
  "fallbackProductionConfig (checkForLastProductionConfig a d) =
     (if mtp_environment a = Production \<and> \<not> otherProduction (addr a) (accounts d)
      then mtp_config a else fallbackProductionConfig d)"
  by (simp add: checkForLastProductionConfig_def refreshFallbackProductionConfig_def)

lemma removeRedundantLoop_fallback_total:
  assumes "distinct (map (\<lambda>e. addr (account e)) (accounts d))"
  shows "fallbackProductionConfig (removeRedundantLoop i d) = fallbackAfterCleanup i d"
  using assms
proof (induction i d rule: removeRedundantLoop.induct)
  case (1 i d)
  let ?xs = "accounts d"
  let ?R = "\<lambda>e. redundant (active d) e"
  let ?G = "\<lambda>k ys. filter (\<lambda>e. ?R e \<and> isProduction e) (drop k ys)"
  let ?K = "\<lambda>k ys. take k ys @ filter (\<lambda>e. \<not> ?R e) (drop k ys)"
  show ?case
  proof (cases "i < length ?xs")
    case False
    then show ?thesis
      by (subst removeRedundantLoop.simps) (simp add: fallbackAfterCleanup_def)
  next
    case inside: True
    then have split: "drop i ?xs = ?xs ! i # drop (Suc i) ?xs"
      by (simp add: Cons_nth_drop_Suc)
    have tk: "take (Suc i) ?xs = take i ?xs @ [?xs ! i]"
      using inside by (rule take_Suc_conv_app_nth)
    show ?thesis
    proof (cases "?R (?xs ! i)")
      case False
      then have keep: "Some (addr (account (?xs ! i))) = active d
          \<or> sessionExists (account (?xs ! i))"
        by (auto simp: redundant_def)
      have step: "removeRedundantLoop i d = removeRedundantLoop (Suc i) d"
        using inside keep by (subst removeRedundantLoop.simps) simp
      have ih: "fallbackProductionConfig (removeRedundantLoop (Suc i) d)
          = fallbackAfterCleanup (Suc i) d"
        by (rule "1.IH"(1) [OF inside keep "1.prems"])
      have g: "?G i ?xs = ?G (Suc i) ?xs"
        unfolding split using False by simp
      have k: "?K i ?xs = ?K (Suc i) ?xs"
        unfolding split tk using False by simp
      have "fallbackAfterCleanup i d = fallbackAfterCleanup (Suc i) d"
        unfolding fallbackAfterCleanup_def g k ..
      then show ?thesis
        unfolding step ih by simp
    next
      case red: True
      then have drop: "\<not> (Some (addr (account (?xs ! i))) = active d
          \<or> sessionExists (account (?xs ! i)))"
        by (auto simp: redundant_def)
      let ?d' = "eraseAt i (checkForLastProductionConfig (account (?xs ! i)) d)"
      let ?xs' = "take i ?xs @ drop (Suc i) ?xs"
      have step: "removeRedundantLoop i d = removeRedundantLoop i ?d'"
        using inside drop by (subst removeRedundantLoop.simps) simp
      have acc': "accounts ?d' = ?xs'" and act': "active ?d' = active d"
        by simp_all
      have dist': "distinct (map (\<lambda>e. addr (account e)) (accounts ?d'))"
        unfolding acc' using "1.prems" by (rule distinct_erased)
      have ih: "fallbackProductionConfig (removeRedundantLoop i ?d') = fallbackAfterCleanup i ?d'"
        by (rule "1.IH"(2) [OF inside drop dist'])
      have len: "length (take i ?xs) = i"
        using inside by simp
      have tk': "take i ?xs' = take i ?xs" and dr': "drop i ?xs' = drop (Suc i) ?xs"
        using len by simp_all
      have k: "?K i ?xs = ?K i ?xs'"
        unfolding tk' dr' unfolding split using red by simp
      have g: "?G i ?xs = (if isProduction (?xs ! i) then [?xs ! i] else []) @ ?G i ?xs'"
        unfolding tk' dr' unfolding split using red by simp
      have other: "otherProduction (addr (account (?xs ! i))) ?xs \<longleftrightarrow>
          (\<exists>e\<in>set ?xs'. isProduction e)"
        by (rule otherProduction_erased [OF "1.prems" inside])
      have cover: "set ?xs' = set (?K i ?xs') \<union> set (filter ?R (drop i ?xs'))"
        unfolding tk' dr' by auto
      have fb': "fallbackProductionConfig ?d' =
          (if isProduction (?xs ! i) \<and> \<not> (\<exists>e\<in>set ?xs'. isProduction e)
           then mtp_config (account (?xs ! i)) else fallbackProductionConfig d)"
        unfolding other [symmetric]
        by (simp add: checkForLastProductionConfig_fallback isProduction_def)
      have after: "fallbackAfterCleanup i ?d' =
          (if ?G i ?xs' = [] \<or> (\<exists>e\<in>set (?K i ?xs'). isProduction e)
           then fallbackProductionConfig ?d' else mtp_config (account (last (?G i ?xs'))))"
        unfolding fallbackAfterCleanup_def acc' act' Let_def ..
      have before: "fallbackAfterCleanup i d =
          (if ?G i ?xs = [] \<or> (\<exists>e\<in>set (?K i ?xs'). isProduction e)
           then fallbackProductionConfig d else mtp_config (account (last (?G i ?xs))))"
        unfolding fallbackAfterCleanup_def Let_def k [symmetric] ..
      have gset: "set (?G i ?xs') = {e \<in> set (filter ?R (drop i ?xs')). isProduction e}"
        by auto
      have "fallbackAfterCleanup i ?d' = fallbackAfterCleanup i d"
      proof (cases "isProduction (?xs ! i)")
        case False
        then have "?G i ?xs = ?G i ?xs'" using g by simp
        moreover have "fallbackProductionConfig ?d' = fallbackProductionConfig d"
          using fb' False by simp
        ultimately show ?thesis
          unfolding after before by simp
      next
        case prod: True
        then have g1: "?G i ?xs = ?xs ! i # ?G i ?xs'" using g by simp
        show ?thesis
        proof (cases "\<exists>e\<in>set ?xs'. isProduction e")
          case noother: False
          have nok: "\<not> (\<exists>e\<in>set (?K i ?xs'). isProduction e)"
            using noother cover by blast
          have nog: "?G i ?xs' = []"
          proof (rule ccontr)
            assume "?G i ?xs' \<noteq> []"
            then obtain e where "e \<in> set (?G i ?xs')"
              by (meson last_in_set)
            then have "e \<in> set (filter ?R (drop i ?xs'))" "isProduction e"
              unfolding gset by blast+
            then show False using noother cover by blast
          qed
          have "fallbackAfterCleanup i ?d' = mtp_config (account (?xs ! i))"
            unfolding after using nog fb' prod noother by simp
          moreover have "fallbackAfterCleanup i d = mtp_config (account (?xs ! i))"
            unfolding before g1 using nok nog by simp
          ultimately show ?thesis by simp
        next
          case someother: True
          then have keepfb: "fallbackProductionConfig ?d' = fallbackProductionConfig d"
            using fb' by simp
          show ?thesis
          proof (cases "\<exists>e\<in>set (?K i ?xs'). isProduction e")
            case True
            then show ?thesis
              unfolding after before keepfb by simp
          next
            case nok: False
            from someother obtain e where e: "e \<in> set ?xs'" "isProduction e"
              by blast
            then have "e \<in> set (filter ?R (drop i ?xs'))"
              using nok cover by blast
            then have "e \<in> set (?G i ?xs')"
              unfolding gset using e(2) by blast
            then have ne: "?G i ?xs' \<noteq> []"
              by (metis empty_iff empty_set)
            have "fallbackAfterCleanup i ?d' = mtp_config (account (last (?G i ?xs')))"
              unfolding after using ne nok by simp
            moreover have "fallbackAfterCleanup i d = mtp_config (account (last (?G i ?xs')))"
              unfolding before g1 using ne nok by simp
            ultimately show ?thesis by simp
          qed
        qed
      qed
      then show ?thesis
        unfolding step ih by simp
    qed
  qed
qed

lemma checkForLastProductionConfig_effects:
  "effects (checkForLastProductionConfig a d) =
     effects d @
       (if mtp_environment a = Production \<and> \<not> otherProduction (addr a) (accounts d)
        then [RefreshFallbackProductionConfig (mtp_config a)] else [])"
  by (simp add: checkForLastProductionConfig_def refreshFallbackProductionConfig_def emit_def)

lemma eraseAt_effects:
  "effects (eraseAt i d) = effects d @ [AccountDestroyed (addr (account (accounts d ! i)))]"
  by (simp add: eraseAt_def emit_def)

lemma removeRedundantLoop_stay:
  "accounts (removeRedundantLoop i d) = stayInCleanup i d"
  by (simp add: removeRedundantLoop_accounts stayInCleanup_def)

lemma removeRedundantLoop_trace:
  assumes "distinct (map (\<lambda>e. addr (account e)) (accounts d))"
  shows "effects (removeRedundantLoop i d) =
     effects d @ cleanupTrace (list_ex isProduction (stayInCleanup i d)) (goneInCleanup i d)"
  using assms
proof (induction i d rule: removeRedundantLoop.induct)
  case (1 i d)
  let ?xs = "accounts d"
  let ?R = "redundant (active d)"
  show ?case
  proof (cases "i < length ?xs")
    case False
    then show ?thesis
      by (subst removeRedundantLoop.simps) (simp add: goneInCleanup_def)
  next
    case inside: True
    then have split: "drop i ?xs = ?xs ! i # drop (Suc i) ?xs"
      by (simp add: Cons_nth_drop_Suc)
    have tk: "take (Suc i) ?xs = take i ?xs @ [?xs ! i]"
      using inside by (rule take_Suc_conv_app_nth)
    show ?thesis
    proof (cases "?R (?xs ! i)")
      case False
      then have keep: "Some (addr (account (?xs ! i))) = active d
          \<or> sessionExists (account (?xs ! i))"
        by (auto simp: redundant_def)
      have step: "removeRedundantLoop i d = removeRedundantLoop (Suc i) d"
        using inside keep by (subst removeRedundantLoop.simps) simp
      have g: "goneInCleanup i d = goneInCleanup (Suc i) d"
        unfolding goneInCleanup_def split using False by simp
      have k: "stayInCleanup i d = stayInCleanup (Suc i) d"
        unfolding stayInCleanup_def split tk using False by simp
      show ?thesis
        unfolding step g k by (rule "1.IH"(1) [OF inside keep "1.prems"])
    next
      case red: True
      then have drop: "\<not> (Some (addr (account (?xs ! i))) = active d
          \<or> sessionExists (account (?xs ! i)))"
        by (auto simp: redundant_def)
      let ?e = "?xs ! i"
      let ?c = "checkForLastProductionConfig (account ?e) d"
      let ?d' = "eraseAt i ?c"
      let ?xs' = "take i ?xs @ drop (Suc i) ?xs"
      have step: "removeRedundantLoop i d = removeRedundantLoop i ?d'"
        using inside drop by (subst removeRedundantLoop.simps) simp
      have acc': "accounts ?d' = ?xs'" and act': "active ?d' = active d"
        by simp_all
      have dist': "distinct (map (\<lambda>e. addr (account e)) (accounts ?d'))"
        unfolding acc' using "1.prems" by (rule distinct_erased)
      have ih: "effects (removeRedundantLoop i ?d') =
          effects ?d' @ cleanupTrace (list_ex isProduction (stayInCleanup i ?d'))
            (goneInCleanup i ?d')"
        by (rule "1.IH"(2) [OF inside drop dist'])
      have len: "length (take i ?xs) = i"
        using inside by simp
      have tk': "take i ?xs' = take i ?xs" and dr': "drop i ?xs' = drop (Suc i) ?xs"
        using len by simp_all
      have k: "stayInCleanup i ?d' = stayInCleanup i d"
        unfolding stayInCleanup_def acc' act' tk' dr' unfolding split using red by simp
      have g: "goneInCleanup i d = ?e # goneInCleanup i ?d'"
        unfolding goneInCleanup_def acc' act' tk' dr' unfolding split using red by simp
      have cover: "set ?xs' = set (stayInCleanup i ?d') \<union> set (goneInCleanup i ?d')"
        unfolding stayInCleanup_def goneInCleanup_def acc' act' tk' dr' by auto
      have other: "otherProduction (addr (account ?e)) ?xs \<longleftrightarrow>
          list_ex isProduction (stayInCleanup i d) \<or> list_ex isProduction (goneInCleanup i ?d')"
        unfolding otherProduction_erased [OF "1.prems" inside] cover k list_ex_iff by blast
      have eff': "effects ?d' = effects d @
          (if isProduction ?e \<and> \<not> list_ex isProduction (stayInCleanup i d)
               \<and> \<not> list_ex isProduction (goneInCleanup i ?d')
           then [RefreshFallbackProductionConfig (mtp_config (account ?e))] else [])
          @ [AccountDestroyed (addr (account ?e))]"
        unfolding eraseAt_effects checkForLastProductionConfig_effects other
        by (simp add: isProduction_def)
      show ?thesis
        unfolding step ih eff' g k by simp
    qed
  qed
qed

lemma removePasscodeIfEmpty_effects:
  assumes "removePasscodeIfEmpty d = Inr (r, d')"
  shows "\<exists>rest. effects d' = effects d @ rest \<and>
           set rest \<subseteq> {LocalReset, UnlockPasscode, SetPasscode []}"
proof (cases "length (accounts d) \<noteq> 1")
  case True
  then have "d' = d" using assms by (simp add: removePasscodeIfEmpty_def)
  then show ?thesis by simp
next
  case one: False
  from assms one obtain a where cur: "activeCurrent d = Inr a"
    by (cases "activeCurrent d") (simp_all add: removePasscodeIfEmpty_def)
  show ?thesis
  proof (cases "sessionExists a")
    case True
    then have "d' = d" using assms one cur by (simp add: removePasscodeIfEmpty_def)
    then show ?thesis by simp
  next
    case False
    then have "effects d' = effects d @ [LocalReset]
        \<or> effects d' = effects d @ [LocalReset, UnlockPasscode, SetPasscode []]"
      using assms one cur
      by (auto simp: removePasscodeIfEmpty_def Let_def emit_def setPasscode_def
          split: if_splits)
    then show ?thesis
    proof
      assume "effects d' = effects d @ [LocalReset]"
      then show ?thesis by (intro exI [of _ "[LocalReset]"]) simp
    next
      assume "effects d' = effects d @ [LocalReset, UnlockPasscode, SetPasscode []]"
      then show ?thesis
        by (intro exI [of _ "[LocalReset, UnlockPasscode, SetPasscode []]"]) simp
    qed
  qed
qed

text \<open>
  C6: on a registry whose accounts have pairwise distinct addresses, the loop of
  \<open>removeRedundantAccounts\<close>, run from position \<open>i\<close>, returns with exactly the entries
  that stay. Its effects are, for each account it removes, in registry order: the push of
  the config of the account to the fallback provider if the account uses the production
  environment and no other account of the registry does at that moment (none that stays and
  none that is still to be removed), and then the destruction of the account. A removed
  production account that is not the last one, and a removed account of another
  environment, contribute their destruction alone. The fallback ends as the config pushed,
  and as it was if there was no push. When \<open>removeRedundantAccounts\<close> returns, it has had
  exactly these effects between those of its \<open>activateAuthedAccount\<close> step and those
  of \<open>removePasscodeIfEmpty\<close>, and it returns that registry and that fallback.
\<close>

theorem removeRedundantAccounts_fallback:
  assumes dist: "distinct (map (\<lambda>e. addr (account e)) (accounts d))"
  shows "accounts (removeRedundantLoop i d) = stayInCleanup i d \<and>
     effects (removeRedundantLoop i d) =
       effects d @ cleanupTrace (list_ex isProduction (stayInCleanup i d)) (goneInCleanup i d) \<and>
     fallbackProductionConfig (removeRedundantLoop i d) = fallbackAfterCleanup i d \<and>
     (\<forall>d'. removeRedundantAccounts d = Inr d' \<longrightarrow>
        (\<exists>d1 rest. activateAuthedAccount d = Inr d1 \<and>
           accounts d' = stayInCleanup 0 d1 \<and>
           effects d' = effects d1
             @ cleanupTrace (list_ex isProduction (stayInCleanup 0 d1)) (goneInCleanup 0 d1)
             @ rest \<and>
           set rest \<subseteq> {LocalReset, UnlockPasscode, SetPasscode []} \<and>
           fallbackProductionConfig d' = fallbackAfterCleanup 0 d1))"
proof -
  have whole: "\<exists>d1 rest. activateAuthedAccount d = Inr d1 \<and>
           accounts d' = stayInCleanup 0 d1 \<and>
           effects d' = effects d1
             @ cleanupTrace (list_ex isProduction (stayInCleanup 0 d1)) (goneInCleanup 0 d1)
             @ rest \<and>
           set rest \<subseteq> {LocalReset, UnlockPasscode, SetPasscode []} \<and>
           fallbackProductionConfig d' = fallbackAfterCleanup 0 d1"
    if run: "removeRedundantAccounts d = Inr d'" for d'
  proof -
    from run have st: "started d"
      by (auto simp: removeRedundantAccounts_def split: if_splits)
    from run st obtain d1 where d1: "activateAuthedAccount d = Inr d1"
      by (auto simp: removeRedundantAccounts_def Let_def split: sum.splits)
    let ?d2 = "removeRedundantLoop 0 d1"
    from run obtain r d3 where
      d3: "removePasscodeIfEmpty ?d2 = Inr (r, d3)"
      and d': "d' = (if \<not> r \<and> length (accounts d3) \<noteq> length (accounts d)
                 then scheduleWriteAccounts d3 else d3)"
      by (auto simp: removeRedundantAccounts_unfold [OF st d1] split: sum.splits prod.splits)
    have "accounts d1 = accounts d"
      using d1 by (rule activateAuthedAccount_accounts)
    then have dist1: "distinct (map (\<lambda>e. addr (account e)) (accounts d1))"
      using dist by simp
    from removePasscodeIfEmpty_effects [OF d3] obtain rest where
      rest: "effects d3 = effects ?d2 @ rest"
        "set rest \<subseteq> {LocalReset, UnlockPasscode, SetPasscode []}"
      by blast
    have acc: "accounts d' = stayInCleanup 0 d1"
      using removePasscodeIfEmpty_frame(1) [OF d3] d'
      by (simp add: removeRedundantLoop_stay)
    have fb: "fallbackProductionConfig d' = fallbackAfterCleanup 0 d1"
      using removePasscodeIfEmpty_frame(3) [OF d3] d'
      by (simp add: removeRedundantLoop_fallback_total [OF dist1])
    have eff: "effects d' = effects d1
        @ cleanupTrace (list_ex isProduction (stayInCleanup 0 d1)) (goneInCleanup 0 d1) @ rest"
      using rest(1) d' by (simp add: removeRedundantLoop_trace [OF dist1])
    show ?thesis
      using d1 acc eff rest(2) fb by blast
  qed
  show ?thesis
    using removeRedundantLoop_stay [of i d] removeRedundantLoop_trace [OF dist, of i]
      removeRedundantLoop_fallback_total [OF dist, of i] whole
    by blast
qed

theorem removeRedundantAccounts_fallback_witness:
  "distinct (map (\<lambda>e. addr (account e)) (accounts (exDomain\<lparr>active := Some 12\<rparr>)))
   \<and> accounts (removeRedundantLoop 0 (exDomain\<lparr>active := Some 12\<rparr>)) = [exC]
   \<and> effects (removeRedundantLoop 0 (exDomain\<lparr>active := Some 12\<rparr>))
       = [AccountDestroyed 10, RefreshFallbackProductionConfig 101, AccountDestroyed 11]
   \<and> fallbackProductionConfig (removeRedundantLoop 0 (exDomain\<lparr>active := Some 12\<rparr>)) = 101
   \<and> distinct (map (\<lambda>e. addr (account e)) (accounts (exDomain\<lparr>accounts := [exC, exB], active := Some 12\<rparr>)))
   \<and> effects (removeRedundantLoop 0 (exDomain\<lparr>accounts := [exC, exB], active := Some 12\<rparr>))
       = [RefreshFallbackProductionConfig 101, AccountDestroyed 11]
   \<and> distinct (map (\<lambda>e. addr (account e)) (accounts (exDomain\<lparr>active := Some 11\<rparr>)))
   \<and> effects (removeRedundantLoop 0 (exDomain\<lparr>active := Some 11\<rparr>)) = [AccountDestroyed 10]
   \<and> fallbackProductionConfig (removeRedundantLoop 0 (exDomain\<lparr>active := Some 11\<rparr>)) = 7
   \<and> distinct (map (\<lambda>e. addr (account e)) (accounts exDomain))
   \<and> removeRedundantAccounts exDomain = Inr exCleaned
   \<and> (\<exists>d1 rest. activateAuthedAccount exDomain = Inr d1 \<and>
          accounts exCleaned = stayInCleanup 0 d1 \<and>
          effects exCleaned = effects d1
            @ cleanupTrace (list_ex isProduction (stayInCleanup 0 d1)) (goneInCleanup 0 d1)
            @ rest \<and>
          set rest \<subseteq> {LocalReset, UnlockPasscode, SetPasscode []} \<and>
          fallbackProductionConfig exCleaned = fallbackAfterCleanup 0 d1)"
proof -
  let ?c = "exDomain\<lparr>active := Some 12\<rparr>"
  let ?o = "exDomain\<lparr>accounts := [exC, exB], active := Some 12\<rparr>"
  let ?b = "exDomain\<lparr>active := Some 11\<rparr>"
  have dc: "distinct (map (\<lambda>e. addr (account e)) (accounts ?c))"
    and dn: "distinct (map (\<lambda>e. addr (account e)) (accounts ?o))"
    and db: "distinct (map (\<lambda>e. addr (account e)) (accounts ?b))"
    by (simp_all add: exDomain_def exA_def exB_def exC_def)
  have sc: "stayInCleanup 0 ?c = [exC]" and gc: "goneInCleanup 0 ?c = [exA, exB]"
    and so: "stayInCleanup 0 ?o = [exC]" and go: "goneInCleanup 0 ?o = [exB]"
    and sb: "stayInCleanup 0 ?b = [exB, exC]" and gb: "goneInCleanup 0 ?b = [exA]"
    by (simp_all add: stayInCleanup_def goneInCleanup_def redundant_def sessionExists_def
        exDomain_def exA_def exB_def exC_def)
  have prod: "isProduction exA" "isProduction exB" "\<not> isProduction exC"
    and vals: "mtp_config (account exB) = 101" "addr (account exA) = 10"
      "addr (account exB) = 11"
    and start: "effects ?c = []" "effects ?o = []" "effects ?b = []"
      "fallbackProductionConfig ?b = 7"
    by (simp_all add: isProduction_def exDomain_def exA_def exB_def exC_def)
  have fc: "fallbackAfterCleanup 0 ?c = 101" and fallb: "fallbackAfterCleanup 0 ?b = 7"
    by (simp_all add: fallbackAfterCleanup_def redundant_def sessionExists_def isProduction_def
        exDomain_def exA_def exB_def exC_def)
  note tc = removeRedundantAccounts_fallback [OF dc, of 0]
  note tn = removeRedundantAccounts_fallback [OF dn, of 0]
  note tb = removeRedundantAccounts_fallback [OF db, of 0]
  have c1: "accounts (removeRedundantLoop 0 ?c) = [exC]"
    using tc [THEN conjunct1] sc by simp
  have c2: "effects (removeRedundantLoop 0 ?c)
      = [AccountDestroyed 10, RefreshFallbackProductionConfig 101, AccountDestroyed 11]"
    using tc [THEN conjunct2, THEN conjunct1] sc gc prod vals start by simp
  have c3: "fallbackProductionConfig (removeRedundantLoop 0 ?c) = 101"
    using tc [THEN conjunct2, THEN conjunct2, THEN conjunct1] fc by simp
  have n2: "effects (removeRedundantLoop 0 ?o)
      = [RefreshFallbackProductionConfig 101, AccountDestroyed 11]"
    using tn [THEN conjunct2, THEN conjunct1] so go prod vals start by simp
  have b2: "effects (removeRedundantLoop 0 ?b) = [AccountDestroyed 10]"
    using tb [THEN conjunct2, THEN conjunct1] sb gb prod vals start by simp
  have b3: "fallbackProductionConfig (removeRedundantLoop 0 ?b) = 7"
    using tb [THEN conjunct2, THEN conjunct2, THEN conjunct1] fallb by simp
  have de: "distinct (map (\<lambda>e. addr (account e)) (accounts exDomain))"
    by (simp add: exDomain_def exA_def exB_def exC_def)
  have whole: "\<exists>d1 rest. activateAuthedAccount exDomain = Inr d1 \<and>
          accounts exCleaned = stayInCleanup 0 d1 \<and>
          effects exCleaned = effects d1
            @ cleanupTrace (list_ex isProduction (stayInCleanup 0 d1)) (goneInCleanup 0 d1)
            @ rest \<and>
          set rest \<subseteq> {LocalReset, UnlockPasscode, SetPasscode []} \<and>
          fallbackProductionConfig exCleaned = fallbackAfterCleanup 0 d1"
    by (rule removeRedundantAccounts_fallback [OF de, of 0,
          THEN conjunct2, THEN conjunct2, THEN conjunct2, rule_format,
          OF removeRedundantAccounts_exDomain])
  show ?thesis
    by (intro conjI dc dn db c1 c2 c3 n2 b2 b3 de removeRedundantAccounts_exDomain whole)
qed

section \<open>Debounced badge recompute (C8)\<close>



lemma scheduleUpdateUnreadBadge_sessionLive [simp]:
  "sessionLive p (scheduleUpdateUnreadBadge d) = sessionLive p d"
  by (simp add: sessionLive_def)




lemma setSession_scheduling [simp]:
  "unreadBadgeUpdateScheduled (setSession p s d) = unreadBadgeUpdateScheduled d"
  "postponedCalls (setSession p s d) = postponedCalls d"
  by (simp_all add: setSession_def)



lemma liveSessions_scheduling [simp]:
  "liveSessions (d\<lparr>postponedCalls := cs, unreadBadgeUpdateScheduled := b\<rparr>) = liveSessions d"
  by (simp add: liveSessions_def)

lemma sessionLive_scheduling [simp]:
  "sessionLive p (d\<lparr>postponedCalls := cs, unreadBadgeUpdateScheduled := b\<rparr>) = sessionLive p d"
  by (simp add: sessionLive_def)




section \<open>The active pointer where \<open>removePasscodeIfEmpty\<close> is called\<close>

text \<open>
  The active invariant, which the passcode theorem assumes, holds at both places that call
  \<open>removePasscodeIfEmpty\<close>: in \<open>removeRedundantAccounts\<close> after the loop, and in
  \<open>activateAfterStarting\<close> after the activation.
\<close>

lemma activeValid_member:
  "activeValid d \<longleftrightarrow>
     accounts d = [] \<or> (\<exists>e\<in>set (accounts d). active d = Some (addr (account e)))"
  by (auto simp: activeValid_def)

lemma activeCurrent_valid:
  assumes "activeCurrent d = Inr a"
  shows "\<exists>e\<in>set (accounts d). active d = Some (addr (account e))"
proof -
  from assms obtain p where p: "active d = Some p"
    by (cases "active d") (simp_all add: activeCurrent_def)
  with assms obtain e where "findAccount p (accounts d) = Some e"
    by (cases "findAccount p (accounts d)") (simp_all add: activeCurrent_def)
  then have "e \<in> set (accounts d) \<and> addr (account e) = p"
    by (rule findAccount_SomeD)
  with p show ?thesis by blast
qed

lemma activateAuthedAccount_valid:
  assumes "activateAuthedAccount d = Inr d1"
  shows "\<exists>e\<in>set (accounts d1). active d1 = Some (addr (account e))"
proof -
  from assms have st: "started d"
    by (simp add: activateAuthedAccount_def split: if_splits)
  from assms st obtain a where cur: "activeCurrent d = Inr a"
    by (cases "activeCurrent d") (simp_all add: activateAuthedAccount_def)
  from activateAuthedAccount_cases [OF st cur] assms
  have cases: "if sessionExists a then d1 = d
       else case find (\<lambda>e. sessionExists (account e)) (accounts d) of
         None \<Rightarrow> d1 = d
       | Some e \<Rightarrow> activate (addr (account e)) d = Inr d1 \<and>
                   active d1 = Some (addr (account e))"
    by simp
  show ?thesis
  proof (cases "sessionExists a \<or> find (\<lambda>e. sessionExists (account e)) (accounts d) = None")
    case True
    then have "d1 = d" using cases by (auto split: if_splits)
    then show ?thesis using activeCurrent_valid [OF cur] by simp
  next
    case False
    then obtain e where e: "find (\<lambda>e. sessionExists (account e)) (accounts d) = Some e"
      by auto
    then have mem: "e \<in> set (accounts d)"
      by (auto simp: find_Some_iff)
    from cases False e have act: "activate (addr (account e)) d = Inr d1"
      and now: "active d1 = Some (addr (account e))"
      by simp_all
    have "accounts d1 = accounts d"
      using act by (rule activate_accounts)
    with mem now show ?thesis by auto
  qed
qed

lemma removeRedundantAccounts_call_site:
  assumes "activateAuthedAccount d = Inr d1"
  shows "activeValid (removeRedundantLoop 0 d1)"
proof -
  from activateAuthedAccount_valid [OF assms] obtain e where
    e: "e \<in> set (accounts d1)" "active d1 = Some (addr (account e))"
    by blast
  have "\<not> redundant (active d1) e"
    using e(2) by (simp add: redundant_def)
  with e(1) have "e \<in> set (accounts (removeRedundantLoop 0 d1))"
    by (simp add: removeRedundantLoop_accounts)
  then show ?thesis
    unfolding activeValid_member using e(2) by auto
qed

lemma activateAfterStartingLoop_target:
  "activateAfterStartingLoop es t d = (t', d') \<Longrightarrow>
     t' = t \<or> t' \<in> (\<lambda>e. addr (account e)) ` set es"
proof (induction es arbitrary: t d)
  case Nil
  then show ?case by simp
next
  case (Cons e es)
  let ?t = "if index e = accountToActivate d then addr (account e) else t"
  have "activateAfterStartingLoop es ?t (watchSession (addr (account e)) d) = (t', d')"
    using Cons.prems by simp
  then have "t' = ?t \<or> t' \<in> (\<lambda>e. addr (account e)) ` set es"
    by (rule Cons.IH)
  then show ?case by (auto split: if_splits)
qed

lemma activateAfterStarting_call_site:
  assumes reg: "accounts d = front # rest"
    and loop: "activateAfterStartingLoop (accounts d) (addr (account front)) d = (t, d1)"
    and act: "activate t d1 = Inr d2"
  shows "activeValid d2"
proof -
  have "t = addr (account front) \<or> t \<in> (\<lambda>e. addr (account e)) ` set (accounts d)"
    using loop by (rule activateAfterStartingLoop_target)
  then have "t \<in> (\<lambda>e. addr (account e)) ` set (accounts d)"
    using reg by auto
  moreover have "accounts d2 = accounts d"
    using activate_accounts [OF act] activateAfterStartingLoop_accounts [OF loop] by simp
  moreover have "active d2 = Some t"
    using act by (rule activate_active)
  ultimately show ?thesis
    unfolding activeValid_member by auto
qed

end
